theory Spec2Isabelle
  imports Main "HOL-Library.Sublist" "HOL-Library.Multiset"
begin

section \<open>Errors\<close>

text \<open>
  The exceptions the modelled code can raise. A function that can raise returns
  \<open>error + 'a\<close>, with \<open>Inl\<close> the exception.
\<close>

datatype error =
  AssertionError | KeyError | IndexError | ValueError | RuntimeError | ZeroDivisionError

definition dict_item :: "('k \<rightharpoonup> 'v) \<Rightarrow> 'k \<Rightarrow> error + 'v" where
  \<comment> \<open>\<^verbatim>\<open>d[k]\<close>: a missing key raises KeyError.\<close>
  "dict_item d k = (case d k of None \<Rightarrow> Inl KeyError | Some v \<Rightarrow> Inr v)"

definition py_last :: "'a list \<Rightarrow> error + 'a" where
  \<comment> \<open>\<^verbatim>\<open>xs[-1]\<close>: raises IndexError on the empty list.\<close>
  "py_last xs = (if xs = [] then Inl IndexError else Inr (last xs))"

section \<open>Strings\<close>

text \<open>
  A Python string is modelled as a list of 8-bit characters, read as the code points
  U+0000 to U+00FF. On these, \<^verbatim>\<open>str.isspace\<close> holds of the twelve code points below,
  and \<^verbatim>\<open>str.lower\<close> moves A to Z and the capital letters of the Latin-1 block (all of
  U+00C0 to U+00DE but the multiplication sign) up by 32.
\<close>

definition isspace :: "char \<Rightarrow> bool" where
  "isspace c = ((of_char c :: nat) \<in> {9, 10, 11, 12, 13, 28, 29, 30, 31, 32, 133, 160})"

definition lower_char :: "char \<Rightarrow> char" where
  "lower_char c =
     (let n = (of_char c :: nat)
      in if (65 \<le> n \<and> n \<le> 90) \<or> (192 \<le> n \<and> n \<le> 222 \<and> n \<noteq> 215)
         then char_of (n + 32) else c)"

definition py_lower :: "string \<Rightarrow> string" where
  \<comment> \<open>\<^verbatim>\<open>s.lower()\<close>\<close>
  "py_lower s = map lower_char s"

definition py_strip :: "string \<Rightarrow> string" where
  \<comment> \<open>\<^verbatim>\<open>s.strip()\<close>: leading and trailing whitespace removed.\<close>
  "py_strip s = rev (dropWhile isspace (rev (dropWhile isspace s)))"

fun split_words :: "string \<Rightarrow> string \<Rightarrow> string list" where
  \<comment> \<open>The scan of \<^verbatim>\<open>s.split()\<close>; \<open>w\<close> is the word read so far.\<close>
  "split_words w [] = (if w = [] then [] else [w])"
| "split_words w (c # cs) =
     (if isspace c then (if w = [] then split_words [] cs else w # split_words [] cs)
      else split_words (w @ [c]) cs)"

definition py_split :: "string \<Rightarrow> string list" where
  \<comment> \<open>\<^verbatim>\<open>s.split()\<close>: the maximal runs of non-whitespace characters.\<close>
  "py_split s = split_words [] s"

fun split_on :: "char \<Rightarrow> string \<Rightarrow> string list" where
  \<comment> \<open>\<^verbatim>\<open>s.split(sep)\<close> for a one-character separator: every separator ends a field,
      and fields can be empty.\<close>
  "split_on sep [] = [[]]"
| "split_on sep (c # cs) =
     (if c = sep then [] # split_on sep cs
      else (case split_on sep cs of [] \<Rightarrow> [[c]] | w # ws \<Rightarrow> (c # w) # ws))"

definition tab :: char where
  "tab = CHR 0x09"

section \<open>Vocabulary\<close>

record Vocabulary =
  freq_threshold :: int
  itos :: "nat \<rightharpoonup> string"
  stoi :: "string \<rightharpoonup> nat"

definition special_tokens :: "(nat \<times> string) list" where
  \<comment> \<open>\<^verbatim>\<open>{0:"<PAD>",1:"<SOS>",2:"<EOS>",3:"<UNK>"}\<close>, in insertion order.\<close>
  "special_tokens = [(0, ''<PAD>''), (1, ''<SOS>''), (2, ''<EOS>''), (3, ''<UNK>'')]"

definition Vocabulary_init :: "int \<Rightarrow> Vocabulary" where
  \<comment> \<open>\<^verbatim>\<open>self.stoi = {v:k for k,v in self.itos.items()}\<close>: a later item overwrites.\<close>
  "Vocabulary_init thr =
     \<lparr>freq_threshold = thr,
      itos = map_of special_tokens,
      stoi = foldl (\<lambda>d (k, v). d(v \<mapsto> k)) Map.empty special_tokens\<rparr>"

definition tokenize :: "string \<Rightarrow> string list" where
  \<comment> \<open>\<^verbatim>\<open>text.lower().strip().split()\<close>\<close>
  "tokenize text = py_split (py_strip (py_lower text))"

fun counter_add :: "(string \<times> nat) list \<Rightarrow> string \<Rightarrow> (string \<times> nat) list" where
  \<comment> \<open>A \<^verbatim>\<open>Counter\<close> is its items in insertion order; this counts one token.\<close>
  "counter_add [] tok = [(tok, 1)]"
| "counter_add ((k, n) # rest) tok =
     (if k = tok then (k, n + 1) # rest else (k, n) # counter_add rest tok)"

definition counter_update :: "(string \<times> nat) list \<Rightarrow> string list \<Rightarrow> (string \<times> nat) list" where
  \<comment> \<open>\<^verbatim>\<open>freqs.update(tokens)\<close>\<close>
  "counter_update freqs toks = foldl counter_add freqs toks"

definition build_entry ::
  "int \<Rightarrow> (string \<rightharpoonup> nat) \<times> (nat \<rightharpoonup> string) \<times> nat \<Rightarrow> string \<times> nat \<Rightarrow>
   (string \<rightharpoonup> nat) \<times> (nat \<rightharpoonup> string) \<times> nat" where
  \<comment> \<open>The body of \<^verbatim>\<open>for tok,f in freqs.items()\<close>, on the state \<open>(stoi, itos, idx)\<close>.\<close>
  "build_entry thr acc item =
     (case acc of (st, it, idx) \<Rightarrow>
        (case item of (tok, f) \<Rightarrow>
           if thr \<le> int f then (st(tok \<mapsto> idx), it(idx \<mapsto> tok), idx + 1) else (st, it, idx)))"

definition build :: "Vocabulary \<Rightarrow> string list \<Rightarrow> Vocabulary" where
  "build v sents =
     (let freqs = foldl (\<lambda>freqs s. counter_update freqs (tokenize s)) [] sents;
          r = foldl (build_entry (freq_threshold v)) (stoi v, itos v, 4) freqs
      in v\<lparr>stoi := fst r, itos := fst (snd r)\<rparr>)"

fun numericalize_tokens :: "Vocabulary \<Rightarrow> string list \<Rightarrow> error + nat list" where
  \<comment> \<open>The comprehension of \<open>numericalize\<close>: the default \<^verbatim>\<open>self.stoi['<UNK>']\<close> is
      looked up for every token, before \<^verbatim>\<open>get\<close> is called.\<close>
  "numericalize_tokens v [] = Inr []"
| "numericalize_tokens v (tok # toks) =
     (case dict_item (stoi v) ''<UNK>'' of
        Inl e \<Rightarrow> Inl e
      | Inr unk \<Rightarrow>
          (case numericalize_tokens v toks of
             Inl e \<Rightarrow> Inl e
           | Inr r \<Rightarrow> Inr ((case stoi v tok of None \<Rightarrow> unk | Some i \<Rightarrow> i) # r)))"

definition numericalize :: "Vocabulary \<Rightarrow> string \<Rightarrow> error + nat list" where
  "numericalize v text = numericalize_tokens v (tokenize text)"

section \<open>Dataset\<close>

text \<open>
  The file system is what \<open>FlickrDataset\<close> asks of it: which paths are directories, and
  for a path that is a regular file, the lines the text-mode iterator yields (each with
  its line end). A file that exists is taken to open and decode. The \<^verbatim>\<open>assert\<close>
  statements are taken as executed. Of the object's fields the \<open>transform\<close>, stored as
  given, is left out.
\<close>

record filesystem =
  isdir :: "string \<Rightarrow> bool"
  file_lines :: "string \<rightharpoonup> string list"

definition isfile :: "filesystem \<Rightarrow> string \<Rightarrow> bool" where
  "isfile fs path = (file_lines fs path \<noteq> None)"

record FlickrDataset =
  ds_data :: "string list list"
  ds_img_dir :: string
  ds_vocab :: Vocabulary

definition read_data :: "string list \<Rightarrow> string list list" where
  \<comment> \<open>\<^verbatim>\<open>[ln.strip().split('\t') for ln in f if '\t' in ln]\<close>\<close>
  "read_data lines =
     foldl (\<lambda>data ln. if tab \<in> set ln then data @ [split_on tab (py_strip ln)] else data)
       [] lines"

fun captions_of :: "string list list \<Rightarrow> error + string list" where
  \<comment> \<open>\<^verbatim>\<open>[c for _,c in self.data]\<close>: an entry that is not of two fields does not
      unpack.\<close>
  "captions_of [] = Inr []"
| "captions_of (entry # rest) =
     (case entry of
        [img, c] \<Rightarrow> (case captions_of rest of Inl e \<Rightarrow> Inl e | Inr cs \<Rightarrow> Inr (c # cs))
      | _ \<Rightarrow> Inl ValueError)"

definition FlickrDataset_init ::
  "filesystem \<Rightarrow> string \<Rightarrow> string \<Rightarrow> int \<Rightarrow> error + FlickrDataset" where
  "FlickrDataset_init fs img_dir captions_file thr =
     (if \<not> isdir fs img_dir then Inl AssertionError
      else if \<not> isfile fs captions_file then Inl AssertionError
      else case file_lines fs captions_file of
             None \<Rightarrow> Inl AssertionError
           | Some lines \<Rightarrow>
               (let data = read_data lines
                in case captions_of data of
                     Inl e \<Rightarrow> Inl e
                   | Inr caps \<Rightarrow>
                       Inr \<lparr>ds_data = data, ds_img_dir = img_dir,
                            ds_vocab = build (Vocabulary_init thr) caps\<rparr>))"

section \<open>Beam search\<close>

text \<open>
  The recurrent network is a library object. The decoder is modelled by the functions
  \<open>beam_search\<close> calls: \<open>'t\<close> are the contents of input tensors, \<open>'st\<close> of the
  recurrent state, \<open>'h\<close> of the cell output, and \<open>'s\<close> are the scores
  (log-probabilities), taken in a linear order with an addition and a zero (a score that
  is not a number is not modelled). \<open>fc_log_softmax\<close> is
  \<^verbatim>\<open>torch.log_softmax(self.fc(h.squeeze(0)),dim=-1)\<close>, read at row 0, and
  \<open>tie_order\<close> is the order in which \<^verbatim>\<open>topk\<close> happens to give equal values, which
  the library does not fix.

  Of the shape of a tensor the model keeps what \<^verbatim>\<open>nn.LSTM\<close> checks. The encoder
  gives \<open>feats\<close> as a 2-D tensor (images by features), so \<^verbatim>\<open>feats.unsqueeze(0)\<close> is
  3-D, a batched input. The index \<^verbatim>\<open>idx[0,k]\<close> is 0-d, its embedding 1-D, and
  \<^verbatim>\<open>self.embed(idx[0,k]).unsqueeze(0)\<close> is 2-D, an unbatched input. The state a call
  returns is 3-D for a batched and 2-D for an unbatched input, and a call with a state
  raises RuntimeError unless the state has the shape that goes with the input. The beam
  width and the step limit are integers.
\<close>

datatype shape = Batched | Unbatched

record ('s, 'st, 'h, 't) DecoderRNN =
  lstm :: "'t \<Rightarrow> 'st option \<Rightarrow> 'h \<times> 'st"
  fc_log_softmax :: "'h \<Rightarrow> 's list"
  embed :: "nat \<Rightarrow> 't"
  tie_order :: "'s list \<Rightarrow> nat \<Rightarrow> nat"

type_synonym ('s, 'st, 't) hyp = "'s \<times> nat list \<times> (shape \<times> 'st) option \<times> (shape \<times> 't)"

definition lstm_forward ::
  "('s, 'st, 'h, 't) DecoderRNN \<Rightarrow> shape \<times> 't \<Rightarrow> (shape \<times> 'st) option \<Rightarrow>
   error + ((shape \<times> 'h) \<times> (shape \<times> 'st))" where
  \<comment> \<open>\<^verbatim>\<open>self.lstm(inp,st)\<close>: output and new state have the shape of the input.\<close>
  "lstm_forward dec inp st =
     (case st of
        None \<Rightarrow>
          (case lstm dec (snd inp) None of (h, ns) \<Rightarrow> Inr ((fst inp, h), (fst inp, ns)))
      | Some hx \<Rightarrow>
          if fst hx \<noteq> fst inp then Inl RuntimeError
          else (case lstm dec (snd inp) (Some (snd hx)) of
                  (h, ns) \<Rightarrow> Inr ((fst inp, h), (fst inp, ns))))"

fun insort_desc :: "('a \<Rightarrow> 's::linorder) \<Rightarrow> 'a \<Rightarrow> 'a list \<Rightarrow> 'a list" where
  "insort_desc f x [] = [x]"
| "insort_desc f x (y # ys) = (if f y \<le> f x then x # y # ys else y # insort_desc f x ys)"

definition sorted_desc :: "('a \<Rightarrow> 's::linorder) \<Rightarrow> 'a list \<Rightarrow> 'a list" where
  \<comment> \<open>\<^verbatim>\<open>sorted(xs, key=f, reverse=True)\<close>: descending and stable.\<close>
  "sorted_desc f xs = foldr (insort_desc f) xs []"

definition topk ::
  "('s::linorder list \<Rightarrow> nat \<Rightarrow> nat) \<Rightarrow> 's list \<Rightarrow> int \<Rightarrow> error + ('s list \<times> nat list)" where
  \<comment> \<open>\<^verbatim>\<open>logp.topk(k)\<close> on one row: the \<open>k\<close> largest values, largest first, with
      their indices; a negative \<open>k\<close> or one beyond the row's size raises. Equal values
      come in the order of \<open>tie\<close> (and of their indices, where \<open>tie\<close> is equal too).\<close>
  "topk tie logp k =
     (if k < 0 \<or> int (length logp) < k then Inl RuntimeError
      else let best = take (nat k)
                        (sorted_desc (\<lambda>i. logp ! i) (sort_key (tie logp) [0..<length logp]))
           in Inr (map (\<lambda>i. logp ! i) best, best))"

fun max_by :: "('a \<Rightarrow> 's::linorder) \<Rightarrow> 'a list \<Rightarrow> error + 'a" where
  \<comment> \<open>\<^verbatim>\<open>max(xs, key=f)\<close>: the first element of largest key; raises on \<open>[]\<close>.\<close>
  "max_by f [] = Inl ValueError"
| "max_by f (x # xs) = Inr (foldl (\<lambda>best y. if f best < f y then y else best) x xs)"

definition py_take :: "int \<Rightarrow> 'a list \<Rightarrow> 'a list" where
  \<comment> \<open>\<^verbatim>\<open>xs[:n]\<close>: a negative \<open>n\<close> counts from the end.\<close>
  "py_take n xs = (if 0 \<le> n then take (nat n) xs else take (nat (int (length xs) + n)) xs)"

definition ends_in_eos :: "Vocabulary \<Rightarrow> nat list \<Rightarrow> error + bool" where
  \<comment> \<open>\<^verbatim>\<open>seq and seq[-1]==vocab.stoi['<EOS>']\<close>; \<open>and\<close> evaluates its right side
      only for a non-empty \<open>seq\<close>.\<close>
  "ends_in_eos vocab seq =
     (if seq = [] then Inr False
      else case py_last seq of
             Inl e \<Rightarrow> Inl e
           | Inr t \<Rightarrow> (case dict_item (stoi vocab) ''<EOS>'' of
                        Inl e \<Rightarrow> Inl e
                      | Inr eos \<Rightarrow> Inr (t = eos)))"

definition beam_inner ::
  "('s::{linorder,plus,zero}, 'st, 'h, 't) DecoderRNN \<Rightarrow> int \<Rightarrow> shape \<Rightarrow> 's \<Rightarrow> nat list \<Rightarrow>
   shape \<times> 'st \<Rightarrow> 's list \<Rightarrow> nat list \<Rightarrow> ('s, 'st, 't) hyp list \<Rightarrow>
   error + ('s, 'st, 't) hyp list" where
  \<comment> \<open>\<^verbatim>\<open>for k in range(beam): cand.append(...)\<close>. \<open>sh\<close> is the shape of the cell
      output: for an unbatched one \<open>lp\<close> is 1-D and \<^verbatim>\<open>lp[0,k]\<close> raises IndexError.
      For a batched one \<open>lp\<close> and \<open>idx\<close> hold \<open>beam\<close> entries in row 0, so every
      \<open>k\<close> is in range.\<close>
  "beam_inner dec beam sh sc seq ns lp idx cand =
     (if sh = Unbatched \<and> 1 \<le> beam then Inl IndexError
      else Inr (foldl (\<lambda>cand k. cand @ [(sc + lp ! k, seq @ [idx ! k], Some ns,
                                          (Unbatched, embed dec (idx ! k)))])
                  cand [0..<nat beam]))"

fun beam_expand ::
  "('s::{linorder,plus,zero}, 'st, 'h, 't) DecoderRNN \<Rightarrow> Vocabulary \<Rightarrow> int \<Rightarrow>
   ('s, 'st, 't) hyp list \<Rightarrow> ('s \<times> nat list) list \<Rightarrow> ('s, 'st, 't) hyp list \<Rightarrow>
   error + (('s \<times> nat list) list \<times> ('s, 'st, 't) hyp list)" where
  \<comment> \<open>\<^verbatim>\<open>for sc,seq,st,inp in seqs\<close>: the state is \<open>finished\<close> and \<open>cand\<close>.\<close>
  "beam_expand dec vocab beam [] finished cand = Inr (finished, cand)"
| "beam_expand dec vocab beam ((sc, seq, st, inp) # rest) finished cand =
     (case ends_in_eos vocab seq of
        Inl e \<Rightarrow> Inl e
      | Inr True \<Rightarrow> beam_expand dec vocab beam rest (finished @ [(sc, seq)]) cand
      | Inr False \<Rightarrow>
          (case lstm_forward dec inp st of
             Inl e \<Rightarrow> Inl e
           | Inr (h, ns) \<Rightarrow>
               (case topk (tie_order dec) (fc_log_softmax dec (snd h)) beam of
                  Inl e \<Rightarrow> Inl e
                | Inr (lp, idx) \<Rightarrow>
                    (case beam_inner dec beam (fst h) sc seq ns lp idx cand of
                       Inl e \<Rightarrow> Inl e
                     | Inr cand' \<Rightarrow> beam_expand dec vocab beam rest finished cand'))))"

definition beam_step ::
  "('s::{linorder,plus,zero}, 'st, 'h, 't) DecoderRNN \<Rightarrow> Vocabulary \<Rightarrow> int \<Rightarrow>
   ('s \<times> nat list) list \<times> ('s, 'st, 't) hyp list \<Rightarrow>
   error + (('s \<times> nat list) list \<times> ('s, 'st, 't) hyp list)" where
  \<comment> \<open>One pass of the body of \<^verbatim>\<open>for _ in range(max_len)\<close>, up to the new \<open>seqs\<close>;
      the state is \<open>(finished, seqs)\<close>.\<close>
  "beam_step dec vocab beam s =
     (case beam_expand dec vocab beam (snd s) (fst s) [] of
        Inl e \<Rightarrow> Inl e
      | Inr (finished, cand) \<Rightarrow> Inr (finished, py_take beam (sorted_desc fst cand)))"

fun beam_loop ::
  "('s::{linorder,plus,zero}, 'st, 'h, 't) DecoderRNN \<Rightarrow> Vocabulary \<Rightarrow> int \<Rightarrow> nat \<Rightarrow>
   nat \<times> ('s \<times> nat list) list \<times> ('s, 'st, 't) hyp list \<Rightarrow>
   error + (nat \<times> ('s \<times> nat list) list \<times> ('s, 'st, 't) hyp list)" where
  \<comment> \<open>\<^verbatim>\<open>for _ in range(max_len): ...; if not seqs: break\<close>, on the number of
      passes left. The first component of the state counts the passes through the body;
      it is no variable of the code and nothing reads it.\<close>
  "beam_loop dec vocab beam 0 ps = Inr ps"
| "beam_loop dec vocab beam (Suc n) ps =
     (case beam_step dec vocab beam (snd ps) of
        Inl e \<Rightarrow> Inl e
      | Inr s' \<Rightarrow>
          if snd s' = [] then Inr (Suc (fst ps), s')
          else beam_loop dec vocab beam n (Suc (fst ps), s'))"

definition beam_init :: "'t \<Rightarrow> ('s::{linorder,plus,zero} \<times> nat list) list \<times> ('s, 'st, 't) hyp list" where
  \<comment> \<open>\<^verbatim>\<open>seqs=[(0.0,[],None,feats.unsqueeze(0))]; finished=[]\<close>\<close>
  "beam_init feats = ([], [(0, [], None, (Batched, feats))])"

definition beam_pool ::
  "('s \<times> nat list) list \<times> ('s, 'st, 't) hyp list \<Rightarrow> ('s \<times> nat list) list" where
  \<comment> \<open>\<^verbatim>\<open>finished += [(sc,seq) for sc,seq,_,_ in seqs]\<close>\<close>
  "beam_pool s = fst s @ map (\<lambda>(sc, seq, st, inp). (sc, seq)) (snd s)"

definition beam_search ::
  "('s::{linorder,plus,zero}, 'st, 'h, 't) DecoderRNN \<Rightarrow> 't \<Rightarrow> Vocabulary \<Rightarrow> int \<Rightarrow> int \<Rightarrow>
   error + nat list" where
  \<comment> \<open>\<^verbatim>\<open>range(max_len)\<close> is empty for a \<open>max_len\<close> below 1.\<close>
  "beam_search dec feats vocab beam max_len =
     (case beam_loop dec vocab beam (nat max_len) (0, beam_init feats) of
        Inl e \<Rightarrow> Inl e
      | Inr ps \<Rightarrow> (case max_by fst (beam_pool (snd ps)) of
                    Inl e \<Rightarrow> Inl e
                  | Inr best \<Rightarrow> Inr (snd best)))"

section \<open>Training\<close>

text \<open>
  The numeric library is a parameter of \<open>train\<close>: the weights \<open>'w\<close> of a fresh encoder
  and of a fresh decoder for a vocabulary size, and \<open>fit_batch\<close>, the body of
  \<^verbatim>\<open>for imgs,caps in dl\<close> (loading a batch, the forward and backward pass and the
  optimiser step) for the dataset, the padding index, the epoch and the number of the
  batch, which gives the new weights of encoder and decoder or raises. What
  \<^verbatim>\<open>torch.save\<close> has written is a list of paths with their contents, a checkpoint
  being the items of the saved dictionary in insertion order. Printing is left out, but
  for the division it makes.
\<close>

definition IMG_DIR :: string where
  "IMG_DIR = ''images''"

definition CAPT_FILE :: string where
  "CAPT_FILE = ''captions.txt''"

definition BATCH_SIZE :: nat where
  "BATCH_SIZE = 32"

definition EPOCHS :: nat where
  "EPOCHS = 10"

datatype 'w saved_value = Weights 'w | Vocab "string \<rightharpoonup> nat"

type_synonym 'w checkpoint = "(string \<times> 'w saved_value) list"

record 'w torch =
  new_encoder :: 'w
  new_decoder :: "nat \<Rightarrow> 'w"
  fit_batch :: "FlickrDataset \<Rightarrow> nat \<Rightarrow> nat \<Rightarrow> nat \<Rightarrow> 'w \<times> 'w \<Rightarrow> error + 'w \<times> 'w"

fun fit_batches ::
  "'w torch \<Rightarrow> FlickrDataset \<Rightarrow> nat \<Rightarrow> nat \<Rightarrow> nat list \<Rightarrow> 'w \<times> 'w \<Rightarrow> error + 'w \<times> 'w" where
  \<comment> \<open>\<^verbatim>\<open>for imgs,caps in dl\<close>, on the numbers of the batches.\<close>
  "fit_batches tr ds pad_idx epoch [] w = Inr w"
| "fit_batches tr ds pad_idx epoch (b # bs) w =
     (case fit_batch tr ds pad_idx epoch b w of
        Inl e \<Rightarrow> Inl e
      | Inr w' \<Rightarrow> fit_batches tr ds pad_idx epoch bs w')"

fun fit_epochs ::
  "'w torch \<Rightarrow> FlickrDataset \<Rightarrow> nat \<Rightarrow> nat \<Rightarrow> nat list \<Rightarrow> 'w \<times> 'w \<Rightarrow> error + 'w \<times> 'w" where
  \<comment> \<open>\<^verbatim>\<open>for epoch in range(EPOCHS)\<close>; \<open>len_dl\<close> is \<^verbatim>\<open>len(dl)\<close>, and the report
      of an epoch divides by it.\<close>
  "fit_epochs tr ds pad_idx len_dl [] w = Inr w"
| "fit_epochs tr ds pad_idx len_dl (epoch # rest) w =
     (case fit_batches tr ds pad_idx epoch [0..<len_dl] w of
        Inl e \<Rightarrow> Inl e
      | Inr w' \<Rightarrow>
          if len_dl = 0 then Inl ZeroDivisionError
          else fit_epochs tr ds pad_idx len_dl rest w')"

definition train ::
  "'w torch \<Rightarrow> filesystem \<Rightarrow> (string \<times> 'w checkpoint) list \<Rightarrow> string \<Rightarrow>
   error + (string \<times> 'w checkpoint) list" where
  \<comment> \<open>\<open>saved\<close> is what has been written before the call; the result is what has been
      written after it.\<close>
  "train tr fs saved output_path =
     (case FlickrDataset_init fs IMG_DIR CAPT_FILE 5 of
        Inl e \<Rightarrow> Inl e
      | Inr ds \<Rightarrow>
          (case dict_item (stoi (ds_vocab ds)) ''<PAD>'' of
             Inl e \<Rightarrow> Inl e
           | Inr pad_idx \<Rightarrow>
               (let len_dl = (length (ds_data ds) + BATCH_SIZE - 1) div BATCH_SIZE;
                    enc = new_encoder tr;
                    dec = new_decoder tr (card (dom (stoi (ds_vocab ds))))
                in case fit_epochs tr ds pad_idx len_dl [0..<EPOCHS] (enc, dec) of
                     Inl e \<Rightarrow> Inl e
                   | Inr (enc', dec') \<Rightarrow>
                       Inr (saved @
                            [(output_path,
                              [(''encoder'', Weights enc'), (''decoder'', Weights dec'),
                               (''vocab'', Vocab (stoi (ds_vocab ds)))])]))))"

section \<open>Beam search: the notions the statements use\<close>

text \<open>
  These definitions are not code of the notebook: they name what the statements below
  say about it. A hypothesis is a tuple \<open>(sc, seq, st, inp)\<close>.
\<close>

definition ended :: "Vocabulary \<Rightarrow> nat list \<Rightarrow> bool" where
  \<comment> \<open>The sequence is non-empty and ends in the index of \<open><EOS>\<close>.\<close>
  "ended vocab seq = (seq \<noteq> [] \<and> stoi vocab ''<EOS>'' = Some (last seq))"

definition hyp_seq :: "('s, 'st, 't) hyp \<Rightarrow> nat list" where
  \<comment> \<open>The token sequence of a hypothesis.\<close>
  "hyp_seq hyp = fst (snd hyp)"

definition hyp_pair :: "('s, 'st, 't) hyp \<Rightarrow> 's \<times> nat list" where
  \<comment> \<open>Score and sequence of a hypothesis, as they are kept in \<open>finished\<close>.\<close>
  "hyp_pair hyp = (fst hyp, fst (snd hyp))"

definition carried :: "('s, 'st, 't) hyp \<Rightarrow> bool" where
  \<comment> \<open>A hypothesis as the inner loop makes it: a non-empty sequence, the 3-D state of
      a batched call, and the 2-D embedding of its last token as the next input.\<close>
  "carried hyp =
     (hyp_seq hyp \<noteq> [] \<and> (\<exists>ns. fst (snd (snd hyp)) = Some (Batched, ns)) \<and>
      fst (snd (snd (snd hyp))) = Unbatched)"

definition is_top_tokens :: "'s::linorder list \<Rightarrow> nat \<Rightarrow> nat list \<Rightarrow> bool" where
  \<comment> \<open>\<open>idx\<close> lists \<open>k\<close> different tokens of the distribution \<open>logp\<close>, the more
      likely first, and no token outside \<open>idx\<close> is more likely than one inside.\<close>
  "is_top_tokens logp k idx =
     (length idx = k \<and> distinct idx \<and> (\<forall>i\<in>set idx. i < length logp) \<and>
      sorted_wrt (\<lambda>i j. logp ! j \<le> logp ! i) idx \<and>
      (\<forall>j<length logp. j \<notin> set idx \<longrightarrow> (\<forall>i\<in>set idx. logp ! j \<le> logp ! i)))"

fun steps_run ::
  "('s::{linorder,plus,zero}, 'st, 'h, 't) DecoderRNN \<Rightarrow> Vocabulary \<Rightarrow> int \<Rightarrow> nat \<Rightarrow>
   ('s \<times> nat list) list \<times> ('s, 'st, 't) hyp list \<Rightarrow>
   error + (('s \<times> nat list) list \<times> ('s, 'st, 't) hyp list)" where
  \<comment> \<open>The state after \<open>k\<close> passes of the body in a row, or the exception of the first
      pass that raises.\<close>
  "steps_run dec vocab beam 0 s = Inr s"
| "steps_run dec vocab beam (Suc k) s =
     (case beam_step dec vocab beam s of
        Inl e \<Rightarrow> Inl e
      | Inr s' \<Rightarrow> steps_run dec vocab beam k s')"

definition toy_decoder :: "(int, unit, unit, unit) DecoderRNN" where
  \<comment> \<open>A decoder over five tokens that gives the same distribution at every step:
      probabilities 1/16, 1/16, 1/8, 1/4, 1/2, with the log-probabilities written
      in units of \<open>ln 2\<close>. Token 4 is the most likely.\<close>
  "toy_decoder =
     \<lparr>lstm = (\<lambda>inp st. ((), ())),
      fc_log_softmax = (\<lambda>h. [- 4, - 4, - 3, - 2, - 1]),
      embed = (\<lambda>i. ()),
      tie_order = (\<lambda>logp i. i)\<rparr>"

definition eager_decoder :: "(int, unit, unit, unit) DecoderRNN" where
  \<comment> \<open>The same five probabilities, with the end-of-sequence token (index 2) the most
      likely at every step.\<close>
  "eager_decoder =
     \<lparr>lstm = (\<lambda>inp st. ((), ())),
      fc_log_softmax = (\<lambda>h. [- 4, - 4, - 1, - 2, - 3]),
      embed = (\<lambda>i. ()),
      tie_order = (\<lambda>logp i. i)\<rparr>"

section \<open>Vocabulary and dataset: the notions the statements use\<close>

text \<open>
  Not code of the notebook. A vocabulary is reachable when it is made by the constructor
  and any number of calls of \<open>build\<close>; \<open>py_join\<close> is \<^verbatim>\<open>sep.join(fields)\<close>.
\<close>

definition is_upper_ascii :: "char \<Rightarrow> bool" where
  \<comment> \<open>One of the letters A to Z.\<close>
  "is_upper_ascii c = (65 \<le> (of_char c :: nat) \<and> (of_char c :: nat) \<le> 90)"

definition mutually_inverse :: "Vocabulary \<Rightarrow> bool" where
  \<comment> \<open>\<open>stoi\<close> maps a token to an index exactly when \<open>itos\<close> maps the index to the
      token.\<close>
  "mutually_inverse v = (\<forall>tok i. stoi v tok = Some i \<longleftrightarrow> itos v i = Some tok)"

definition specials_fixed :: "Vocabulary \<Rightarrow> bool" where
  \<comment> \<open>The four special tokens sit at the indices 0 to 3, in both maps.\<close>
  "specials_fixed v =
     (itos v 0 = Some ''<PAD>'' \<and> itos v 1 = Some ''<SOS>'' \<and>
      itos v 2 = Some ''<EOS>'' \<and> itos v 3 = Some ''<UNK>'' \<and>
      stoi v ''<PAD>'' = Some 0 \<and> stoi v ''<SOS>'' = Some 1 \<and>
      stoi v ''<EOS>'' = Some 2 \<and> stoi v ''<UNK>'' = Some 3)"

inductive reachable :: "Vocabulary \<Rightarrow> bool" where
  reachable_init: "reachable (Vocabulary_init thr)"
| reachable_build: "reachable v \<Longrightarrow> reachable (build v sents)"

fun py_join :: "string \<Rightarrow> string list \<Rightarrow> string" where
  "py_join sep [] = []"
| "py_join sep [x] = x"
| "py_join sep (x # y # ys) = x @ sep @ py_join sep (y # ys)"

text \<open>
  A file system with a directory \<open>images\<close> and a file \<open>captions.txt\<close> of three lines.
\<close>

definition fs_ok :: filesystem where
  "fs_ok = \<lparr>isdir = (\<lambda>p. p = ''images''),
     file_lines = [''captions.txt'' \<mapsto>
        [''image'' @ [tab] @ ''caption'' @ [CHR 0x0A],
         ''no tab here'' @ [CHR 0x0A],
         ''1.jpg'' @ [tab] @ ''A dog runs'' @ [CHR 0x0A]]]\<rparr>"

definition toy_torch :: "nat torch" where
  \<comment> \<open>Weights are numbers, and a batch adds one to each.\<close>
  "toy_torch =
     \<lparr>new_encoder = 0, new_decoder = (\<lambda>n. 0),
      fit_batch = (\<lambda>ds pad_idx epoch b w. Inr (Suc (fst w), Suc (snd w)))\<rparr>"

section \<open>Sorting, maximum and top-k\<close>

lemma mset_insort_desc: "mset (insort_desc f x xs) = add_mset x (mset xs)"
  by (induction xs) simp_all

lemma mset_sorted_desc: "mset (sorted_desc f xs) = mset xs"
  unfolding sorted_desc_def by (induction xs) (simp_all add: mset_insort_desc)

lemma length_sorted_desc: "length (sorted_desc f xs) = length xs"
  using mset_sorted_desc [of f xs] by (rule mset_eq_length)

lemma set_sorted_desc: "set (sorted_desc f xs) = set xs"
  using mset_sorted_desc [of f xs] by (rule mset_eq_setD)

lemma set_insort_desc: "set (insort_desc f x xs) = insert x (set xs)"
  using mset_insort_desc [of f x xs] by (metis mset_eq_setD set_mset_add_mset_insert set_mset_mset)

lemma sorted_insort_desc:
  "sorted_wrt (\<lambda>a b. (f :: 'a \<Rightarrow> 's::linorder) b \<le> f a) xs \<Longrightarrow> sorted_wrt (\<lambda>a b. f b \<le> f a) (insort_desc f x xs)"
proof (induction xs)
  case Nil
  show ?case by simp
next
  case (Cons y ys)
  show ?case
  proof (cases "f y \<le> f x")
    case True
    with Cons.prems show ?thesis by (auto intro: order_trans)
  next
    case False
    with Cons show ?thesis by (auto simp: set_insort_desc)
  qed
qed

lemma sorted_sorted_desc: "sorted_wrt (\<lambda>a b. f b \<le> f a) (sorted_desc f xs)"
  unfolding sorted_desc_def by (induction xs) (simp_all add: sorted_insort_desc)

lemma take_drop_sorted_desc:
  assumes "x \<in> set (take k (sorted_desc (f :: 'a \<Rightarrow> 's::linorder) xs))" and "y \<in> set (drop k (sorted_desc f xs))"
  shows "f y \<le> f x"
proof -
  have "sorted_wrt (\<lambda>a b. f b \<le> f a) (take k (sorted_desc f xs) @ drop k (sorted_desc f xs))"
    by (simp add: sorted_sorted_desc)
  with assms show ?thesis
    unfolding sorted_wrt_append by blast
qed

lemma foldl_pick_mem:
  "foldl (\<lambda>best y. if (f :: 'a \<Rightarrow> 's::linorder) best < f y then y else best) x xs \<in> set (x # xs)"
  by (induction xs arbitrary: x) (simp, force)

lemma foldl_pick_start:
  "(f :: 'a \<Rightarrow> 's::linorder) x \<le> f (foldl (\<lambda>best y. if f best < f y then y else best) x xs)"
proof (induction xs arbitrary: x)
  case Nil
  show ?case by simp
next
  case (Cons y ys)
  show ?case
    using Cons.IH [of y] Cons.IH [of x] by (auto intro: order_trans less_imp_le)
qed

lemma foldl_pick_max:
  "y \<in> set xs \<Longrightarrow> (f :: 'a \<Rightarrow> 's::linorder) y \<le> f (foldl (\<lambda>best y. if f best < f y then y else best) x xs)"
proof (induction xs arbitrary: x)
  case Nil
  then show ?case by simp
next
  case (Cons z zs)
  show ?case
  proof (cases "y = z")
    case True
    show ?thesis
      using foldl_pick_start [of f z zs] foldl_pick_start [of f x zs] True
      by (auto simp: not_less intro: order_trans)
  next
    case False
    with Cons show ?thesis by auto
  qed
qed

lemma foldl_pick_later:
  "foldl (\<lambda>best y. if (f :: 'a \<Rightarrow> 's::linorder) best < f y then y else best) x xs = x \<or>
   (foldl (\<lambda>best y. if f best < f y then y else best) x xs \<in> set xs \<and>
    f x < f (foldl (\<lambda>best y. if f best < f y then y else best) x xs))"
proof (induction xs arbitrary: x)
  case Nil
  show ?case by simp
next
  case (Cons y ys)
  show ?case
  proof (cases "f x < f y")
    case True
    with Cons.IH [of y] show ?thesis by (auto intro: less_trans)
  next
    case False
    with Cons.IH [of x] show ?thesis by auto
  qed
qed

lemma max_by_Inl: "max_by f xs = Inl e \<longleftrightarrow> xs = [] \<and> e = ValueError"
  by (cases xs) auto

lemma max_by_mem: "max_by f xs = Inr b \<Longrightarrow> b \<in> set xs"
  using foldl_pick_mem [of f] by (cases xs) auto

lemma max_by_max: "max_by f xs = Inr b \<Longrightarrow> x \<in> set xs \<Longrightarrow> f x \<le> f b"
  using foldl_pick_max [of _ _ f] foldl_pick_start [of f] by (cases xs) auto

lemma max_by_first:
  assumes "max_by f (xs @ ys) = Inr b"
  shows "b \<in> set xs \<or> (\<forall>x\<in>set xs. f x < f b)"
proof (cases xs)
  case Nil
  then show ?thesis by simp
next
  case (Cons x xs')
  let ?g = "\<lambda>best y. if f best < f y then y else best"
  let ?m = "foldl ?g x xs'"
  from assms Cons have b: "b = foldl ?g ?m ys" by simp
  have m_mem: "?m \<in> set xs" using foldl_pick_mem [of f x xs'] Cons by simp
  have m_max: "\<forall>z\<in>set xs. f z \<le> f ?m"
    using foldl_pick_max [of _ xs' f x] foldl_pick_start [of f x xs'] Cons by auto
  from foldl_pick_later [of f ?m ys] b
  consider "b = ?m" | "f ?m < f b" by auto
  then show ?thesis
  proof cases
    case 1
    with m_mem show ?thesis by simp
  next
    case 2
    with m_max show ?thesis by (auto intro: le_less_trans)
  qed
qed

section \<open>The passes of the search\<close>

lemma ends_in_eos_Inr: "ends_in_eos vocab seq = Inr b \<Longrightarrow> b = ended vocab seq"
  by (auto simp: ends_in_eos_def ended_def py_last_def dict_item_def
      split: if_splits option.splits)

lemma ends_in_eos_Inl:
  "ends_in_eos vocab seq = Inl e \<Longrightarrow> e = KeyError \<and> seq \<noteq> [] \<and> stoi vocab ''<EOS>'' = None"
  by (auto simp: ends_in_eos_def py_last_def dict_item_def split: if_splits option.splits)

lemma ends_in_eos_Nil: "ends_in_eos vocab [] = Inr False"
  by (simp add: ends_in_eos_def)

lemma ended_nonempty: "ended vocab seq \<Longrightarrow> seq \<noteq> []"
  by (simp add: ended_def)

lemma snd_hyp_pair: "snd (hyp_pair hyp) = hyp_seq hyp"
  by (simp add: hyp_pair_def hyp_seq_def)

lemma beam_pool_eq: "beam_pool s = fst s @ map hyp_pair (snd s)"
  by (simp add: beam_pool_def hyp_pair_def case_prod_beta)

lemma foldl_append_one: "foldl (\<lambda>acc k. acc @ [g k]) acc ks = acc @ map g ks"
  by (induction ks arbitrary: acc) simp_all

lemma beam_inner_Inr:
  assumes "beam_inner dec beam sh sc seq ns lp idx cand = Inr cand'"
  shows "cand' = cand @ map (\<lambda>k. (sc + lp ! k, seq @ [idx ! k], Some ns,
                                   (Unbatched, embed dec (idx ! k)))) [0..<nat beam]"
  using assms unfolding beam_inner_def by (simp add: foldl_append_one split: if_splits)

lemma beam_inner_Inl:
  "beam_inner dec beam sh sc seq ns lp idx cand = Inl e \<Longrightarrow>
     e = IndexError \<and> sh = Unbatched \<and> 1 \<le> beam"
  unfolding beam_inner_def by (simp split: if_splits)

lemma beam_inner_Batched:
  "\<exists>cand'. beam_inner dec beam Batched sc seq ns lp idx cand = Inr cand'"
  unfolding beam_inner_def by simp

lemma lstm_forward_Inl: "lstm_forward dec inp st = Inl e \<Longrightarrow> e = RuntimeError"
  unfolding lstm_forward_def by (auto split: option.splits if_splits prod.splits)

lemma lstm_forward_shape:
  "lstm_forward dec inp st = Inr (h, ns) \<Longrightarrow> fst h = fst inp \<and> fst ns = fst inp"
  unfolding lstm_forward_def by (auto split: option.splits if_splits prod.splits)

lemma lstm_forward_mismatch:
  "fst hx \<noteq> fst inp \<Longrightarrow> lstm_forward dec inp (Some hx) = Inl RuntimeError"
  unfolding lstm_forward_def by simp

lemma lstm_forward_None: "\<exists>h ns. lstm_forward dec inp None = Inr ((fst inp, h), (fst inp, ns))"
  unfolding lstm_forward_def by (simp split: prod.splits)

lemma topk_Inl: "topk tie logp k = Inl e \<longleftrightarrow> (k < 0 \<or> int (length logp) < k) \<and> e = RuntimeError"
  by (auto simp: topk_def Let_def)

lemma topk_length:
  assumes "topk tie logp k = Inr (lp, idx)"
  shows "length lp = nat k \<and> length idx = nat k"
proof -
  from assms have k: "0 \<le> k" "k \<le> int (length logp)"
    and idx: "idx = take (nat k)
        (sorted_desc (\<lambda>i. logp ! i) (sort_key (tie logp) [0..<length logp]))"
    and lp: "lp = map (\<lambda>i. logp ! i) idx"
    by (auto simp: topk_def Let_def split: if_splits)
  have "length (sorted_desc (\<lambda>i. logp ! i) (sort_key (tie logp) [0..<length logp])) = length logp"
    by (simp add: length_sorted_desc)
  with k idx have "length idx = nat k" by simp
  with lp show ?thesis by simp
qed

lemma topk_Inr:
  assumes "topk tie logp k = Inr (lp, idx)"
  shows "is_top_tokens logp (nat k) idx" and "lp = map (\<lambda>i. logp ! i) idx"
proof -
  let ?zs = "sorted_desc (\<lambda>i. logp ! i) (sort_key (tie logp) [0..<length logp])"
  from assms have idx: "idx = take (nat k) ?zs" and lp: "lp = map (\<lambda>i. logp ! i) idx"
    by (auto simp: topk_def Let_def split: if_splits)
  show "lp = map (\<lambda>i. logp ! i) idx" by (rule lp)
  have m: "mset ?zs = mset [0..<length logp]" by (simp add: mset_sorted_desc)
  then have s: "set ?zs = {0..<length logp}" by (metis mset_eq_setD set_upt)
  from m have dist: "distinct ?zs" by (metis distinct_upt mset_eq_imp_distinct_iff)
  have len: "length idx = nat k" using topk_length [OF assms] by simp
  have d: "distinct idx" unfolding idx using dist by (rule distinct_take)
  have rng: "\<forall>i\<in>set idx. i < length logp"
    using s unfolding idx by (auto dest: in_set_takeD)
  have "sorted_wrt (\<lambda>a b. logp ! b \<le> logp ! a) ?zs" by (rule sorted_sorted_desc)
  then have srt: "sorted_wrt (\<lambda>i j. logp ! j \<le> logp ! i) idx"
    unfolding idx by (rule sorted_wrt_take)
  have rest: "\<forall>j<length logp. j \<notin> set idx \<longrightarrow> (\<forall>i\<in>set idx. logp ! j \<le> logp ! i)"
  proof (intro allI impI ballI)
    fix j i assume j: "j < length logp" and nj: "j \<notin> set idx" and i: "i \<in> set idx"
    from j s have "j \<in> set (take (nat k) ?zs) \<union> set (drop (nat k) ?zs)"
      by (metis append_take_drop_id atLeastLessThan_iff le0 set_append)
    with nj idx have dr: "j \<in> set (drop (nat k) ?zs)" by simp
    from i idx have tk: "i \<in> set (take (nat k) ?zs)" by simp
    from take_drop_sorted_desc [OF tk dr] show "logp ! j \<le> logp ! i" .
  qed
  show "is_top_tokens logp (nat k) idx"
    unfolding is_top_tokens_def using len d rng srt rest by simp
qed

lemma beam_expand_finished:
  "beam_expand dec vocab beam seqs finished cand = Inr (fin', cand') \<Longrightarrow>
   fin' = finished @ map hyp_pair (filter (\<lambda>hyp. ended vocab (hyp_seq hyp)) seqs)"
proof (induction seqs arbitrary: finished cand)
  case Nil
  then show ?case by simp
next
  case (Cons hyp rest)
  obtain sc seq st inp where hyp: "hyp = (sc, seq, st, inp)" by (cases hyp) auto
  show ?case
  proof (cases "ends_in_eos vocab seq")
    case (Inl e)
    with Cons.prems hyp show ?thesis by simp
  next
    case (Inr b)
    then have b: "b = ended vocab seq" by (rule ends_in_eos_Inr)
    show ?thesis
    proof (cases b)
      case True
      with Cons.prems hyp Inr
      have "beam_expand dec vocab beam rest (finished @ [(sc, seq)]) cand = Inr (fin', cand')"
        by simp
      from Cons.IH [OF this] True b hyp show ?thesis by (simp add: hyp_seq_def hyp_pair_def)
    next
      case False
      with Cons.prems hyp Inr obtain cand1 where
        "beam_expand dec vocab beam rest finished cand1 = Inr (fin', cand')"
        by (auto split: sum.splits prod.splits)
      from Cons.IH [OF this] False b hyp show ?thesis by (simp add: hyp_seq_def)
    qed
  qed
qed

lemma beam_expand_parent:
  "beam_expand dec vocab beam seqs finished cand = Inr (fin', cand') \<Longrightarrow> c \<in> set cand' \<Longrightarrow>
   c \<in> set cand \<or>
   (\<exists>hyp\<in>set seqs. \<not> ended vocab (hyp_seq hyp) \<and> (\<exists>i. hyp_seq c = hyp_seq hyp @ [i]))"
proof (induction seqs arbitrary: finished cand)
  case Nil
  then show ?case by simp
next
  case (Cons hyp rest)
  obtain sc seq st inp where hyp: "hyp = (sc, seq, st, inp)" by (cases hyp) auto
  show ?case
  proof (cases "ends_in_eos vocab seq")
    case (Inl e)
    with Cons.prems hyp show ?thesis by simp
  next
    case (Inr b)
    then have b: "b = ended vocab seq" by (rule ends_in_eos_Inr)
    show ?thesis
    proof (cases b)
      case True
      with Cons.prems(1) hyp Inr
      have "beam_expand dec vocab beam rest (finished @ [(sc, seq)]) cand = Inr (fin', cand')"
        by simp
      from Cons.IH [OF this Cons.prems(2)] show ?thesis by auto
    next
      case False
      with Cons.prems(1) hyp Inr obtain h ns lp idx cand1 where
        inner: "beam_inner dec beam (fst h) sc seq ns lp idx cand = Inr cand1"
        and r: "beam_expand dec vocab beam rest finished cand1 = Inr (fin', cand')"
        by (auto split: sum.splits prod.splits)
      from Cons.IH [OF r Cons.prems(2)]
      consider "c \<in> set cand1"
        | "\<exists>hyp\<in>set rest. \<not> ended vocab (hyp_seq hyp) \<and> (\<exists>i. hyp_seq c = hyp_seq hyp @ [i])"
        by blast
      then show ?thesis
      proof cases
        case 1
        then have "c \<in> set cand \<or> (\<exists>i. hyp_seq c = seq @ [i])"
          unfolding beam_inner_Inr [OF inner] by (auto simp: hyp_seq_def)
        with False b hyp show ?thesis by (auto simp: hyp_seq_def)
      next
        case 2
        then show ?thesis by auto
      qed
    qed
  qed
qed

lemma set_py_take: "set (py_take n xs) \<subseteq> set xs"
  unfolding py_take_def by (auto dest: in_set_takeD)

lemma beam_step_finished:
  assumes "beam_step dec vocab beam s = Inr s'"
  shows "fst s' = fst s @ map hyp_pair (filter (\<lambda>hyp. ended vocab (hyp_seq hyp)) (snd s))"
proof -
  from assms obtain fin' cand where
    e: "beam_expand dec vocab beam (snd s) (fst s) [] = Inr (fin', cand)"
    and s': "s' = (fin', py_take beam (sorted_desc fst cand))"
    by (auto simp: beam_step_def split: sum.splits)
  from beam_expand_finished [OF e] s' show ?thesis by simp
qed

lemma beam_step_parent:
  assumes "beam_step dec vocab beam s = Inr s'" and "c \<in> set (snd s')"
  shows "\<exists>hyp\<in>set (snd s). \<not> ended vocab (hyp_seq hyp) \<and> (\<exists>i. hyp_seq c = hyp_seq hyp @ [i])"
proof -
  from assms(1) obtain fin' cand where
    e: "beam_expand dec vocab beam (snd s) (fst s) [] = Inr (fin', cand)"
    and s': "s' = (fin', py_take beam (sorted_desc fst cand))"
    by (auto simp: beam_step_def split: sum.splits)
  from assms(2) s' set_py_take have "c \<in> set (sorted_desc fst cand)" by fastforce
  then have "c \<in> set cand" by (simp only: set_sorted_desc)
  from beam_expand_parent [OF e this] show ?thesis by simp
qed

lemma carriedI:
  "seq \<noteq> [] \<Longrightarrow> carried (sc, seq, Some (Batched, ns), (Unbatched, x))"
  by (simp add: carried_def hyp_seq_def)

lemma carried_nonempty: "carried hyp \<Longrightarrow> hyp_seq hyp \<noteq> []"
  by (simp add: carried_def)

lemma lstm_forward_carried:
  assumes "carried (sc, seq, st, inp)"
  shows "lstm_forward dec inp st = Inl RuntimeError"
proof -
  from assms obtain ns where "st = Some (Batched, ns)" and "fst inp = Unbatched"
    by (auto simp: carried_def)
  then show ?thesis by (simp add: lstm_forward_mismatch)
qed

lemma beam_expand_carried_Inl:
  assumes "\<forall>hyp\<in>set seqs. carried hyp"
    and "beam_expand dec vocab beam seqs finished cand = Inl e"
  shows "e = KeyError \<or> e = RuntimeError"
  using assms
proof (induction seqs arbitrary: finished cand)
  case Nil
  then show ?case by simp
next
  case (Cons hyp rest)
  obtain sc seq st inp where hyp: "hyp = (sc, seq, st, inp)" by (cases hyp) auto
  from Cons.prems(1) hyp have c: "carried (sc, seq, st, inp)"
    and r: "\<forall>hyp\<in>set rest. carried hyp" by simp_all
  show ?case
  proof (cases "ends_in_eos vocab seq")
    case (Inl e')
    with Cons.prems(2) hyp have "e = e'" by simp
    with Inl ends_in_eos_Inl show ?thesis by blast
  next
    case (Inr b)
    show ?thesis
    proof (cases b)
      case True
      with Cons.prems(2) hyp Inr
      have "beam_expand dec vocab beam rest (finished @ [(sc, seq)]) cand = Inl e" by simp
      from Cons.IH [OF r this] show ?thesis .
    next
      case False
      with Cons.prems(2) hyp Inr lstm_forward_carried [OF c, of dec] show ?thesis by simp
    qed
  qed
qed

lemma beam_expand_carried_Inr:
  assumes "\<forall>hyp\<in>set seqs. carried hyp"
    and "beam_expand dec vocab beam seqs finished cand = Inr (fin', cand')"
  shows "(\<forall>hyp\<in>set seqs. ended vocab (hyp_seq hyp)) \<and> cand' = cand"
  using assms
proof (induction seqs arbitrary: finished cand)
  case Nil
  then show ?case by simp
next
  case (Cons hyp rest)
  obtain sc seq st inp where hyp: "hyp = (sc, seq, st, inp)" by (cases hyp) auto
  from Cons.prems(1) hyp have c: "carried (sc, seq, st, inp)"
    and r: "\<forall>hyp\<in>set rest. carried hyp" by simp_all
  show ?case
  proof (cases "ends_in_eos vocab seq")
    case (Inl e')
    with Cons.prems(2) hyp show ?thesis by simp
  next
    case (Inr b)
    then have b: "b = ended vocab seq" by (rule ends_in_eos_Inr)
    show ?thesis
    proof (cases b)
      case True
      with Cons.prems(2) hyp Inr
      have "beam_expand dec vocab beam rest (finished @ [(sc, seq)]) cand = Inr (fin', cand')"
        by simp
      from Cons.IH [OF r this] True b hyp show ?thesis by (simp add: hyp_seq_def)
    next
      case False
      with Cons.prems(2) hyp Inr lstm_forward_carried [OF c, of dec] show ?thesis by simp
    qed
  qed
qed

lemma sorted_desc_Nil: "sorted_desc f [] = []"
  by (simp add: sorted_desc_def)

lemma py_take_Nil: "py_take n [] = []"
  by (simp add: py_take_def)

lemma beam_step_carried_Inl:
  assumes "\<forall>hyp\<in>set (snd s). carried hyp" and "beam_step dec vocab beam s = Inl e"
  shows "e = KeyError \<or> e = RuntimeError"
proof -
  from assms(2) have "beam_expand dec vocab beam (snd s) (fst s) [] = Inl e"
    by (auto simp: beam_step_def split: sum.splits)
  from beam_expand_carried_Inl [OF assms(1) this] show ?thesis .
qed

lemma beam_step_carried_Inr:
  assumes "\<forall>hyp\<in>set (snd s). carried hyp" and "beam_step dec vocab beam s = Inr s'"
  shows "(\<forall>hyp\<in>set (snd s). ended vocab (hyp_seq hyp)) \<and>
         s' = (fst s @ map hyp_pair (snd s), [])"
proof -
  from assms(2) obtain fin' cand where
    e: "beam_expand dec vocab beam (snd s) (fst s) [] = Inr (fin', cand)"
    and s': "s' = (fin', py_take beam (sorted_desc fst cand))"
    by (auto simp: beam_step_def split: sum.splits)
  from beam_expand_carried_Inr [OF assms(1) e]
  have all: "\<forall>hyp\<in>set (snd s). ended vocab (hyp_seq hyp)" and c: "cand = []" by simp_all
  from all have "filter (\<lambda>hyp. ended vocab (hyp_seq hyp)) (snd s) = snd s" by simp
  with beam_expand_finished [OF e] have "fin' = fst s @ map hyp_pair (snd s)" by simp
  with s' c all show ?thesis by (simp add: sorted_desc_Nil py_take_Nil)
qed

lemma beam_expand_init:
  "beam_expand dec vocab beam [(0, [], None, (Batched, feats))] [] [] =
     (case lstm dec feats None of (h, ns) \<Rightarrow>
        (case topk (tie_order dec) (fc_log_softmax dec h) beam of
           Inl e \<Rightarrow> Inl e
         | Inr (lp, idx) \<Rightarrow>
             Inr ([], map (\<lambda>k. (0 + lp ! k, [idx ! k], Some (Batched, ns),
                              (Unbatched, embed dec (idx ! k)))) [0..<nat beam])))"
  by (simp add: ends_in_eos_Nil lstm_forward_def beam_inner_def foldl_append_one
      split: prod.splits sum.splits)

lemma beam_step_init_Inl:
  assumes "beam_step dec vocab beam (beam_init feats) = Inl e"
  shows "e = RuntimeError"
proof -
  from assms have "beam_expand dec vocab beam [(0, [], None, (Batched, feats))] [] [] = Inl e"
    by (auto simp: beam_step_def beam_init_def split: sum.splits)
  then show ?thesis
    unfolding beam_expand_init by (auto simp: topk_Inl split: prod.splits sum.splits)
qed

lemma beam_step_init_Inr:
  assumes "beam_step dec vocab beam (beam_init feats) = Inr s1"
  shows "fst s1 = [] \<and> length (snd s1) = nat beam \<and>
         (\<forall>hyp\<in>set (snd s1). carried hyp \<and> length (hyp_seq hyp) = 1)"
proof -
  obtain h ns where l: "lstm dec feats None = (h, ns)" by (cases "lstm dec feats None") auto
  from assms obtain fin' cand where
    e: "beam_expand dec vocab beam [(0, [], None, (Batched, feats))] [] [] = Inr (fin', cand)"
    and s1: "s1 = (fin', py_take beam (sorted_desc fst cand))"
    by (auto simp: beam_step_def beam_init_def split: sum.splits)
  from e l obtain lp idx where
    t: "topk (tie_order dec) (fc_log_softmax dec h) beam = Inr (lp, idx)"
    and fin': "fin' = []"
    and cand: "cand = map (\<lambda>k. (0 + lp ! k, [idx ! k], Some (Batched, ns),
                              (Unbatched, embed dec (idx ! k)))) [0..<nat beam]"
    unfolding beam_expand_init by (auto split: sum.splits)
  from t have nonneg: "0 \<le> beam" by (auto simp: topk_def Let_def split: if_splits)
  have len: "length (sorted_desc fst cand) = nat beam"
    by (simp add: length_sorted_desc cand)
  with nonneg have tk: "py_take beam (sorted_desc fst cand) = sorted_desc fst cand"
    by (simp add: py_take_def)
  have "\<forall>hyp\<in>set cand. carried hyp \<and> length (hyp_seq hyp) = 1"
    unfolding cand by (auto simp: carried_def hyp_seq_def)
  then have "\<forall>hyp\<in>set (sorted_desc fst cand). carried hyp \<and> length (hyp_seq hyp) = 1"
    by (simp only: set_sorted_desc)
  with s1 fin' tk len show ?thesis by simp
qed

lemma beam_loop_steps:
  assumes "beam_loop dec vocab beam n ps = Inr ps'"
  shows "\<exists>k\<le>n. fst ps' = fst ps + k \<and> steps_run dec vocab beam k (snd ps) = Inr (snd ps') \<and>
           (k < n \<longrightarrow> snd (snd ps') = []) \<and>
           (\<forall>j. 0 < j \<and> j < k \<longrightarrow>
              (\<exists>sj. steps_run dec vocab beam j (snd ps) = Inr sj \<and> snd sj \<noteq> []))"
  using assms
proof (induction n arbitrary: ps)
  case 0
  then have "fst ps' = fst ps + 0 \<and> steps_run dec vocab beam 0 (snd ps) = Inr (snd ps')"
    by simp
  then show ?case by blast
next
  case (Suc n)
  from Suc.prems obtain s1 where step: "beam_step dec vocab beam (snd ps) = Inr s1"
    by (auto split: sum.splits)
  show ?case
  proof (cases "snd s1 = []")
    case True
    with Suc.prems step have ps': "ps' = (Suc (fst ps), s1)" by simp
    with step True have "Suc 0 \<le> Suc n \<and> fst ps' = fst ps + Suc 0 \<and>
        steps_run dec vocab beam (Suc 0) (snd ps) = Inr (snd ps') \<and>
        (Suc 0 < Suc n \<longrightarrow> snd (snd ps') = []) \<and>
        (\<forall>j. 0 < j \<and> j < Suc 0 \<longrightarrow>
           (\<exists>sj. steps_run dec vocab beam j (snd ps) = Inr sj \<and> snd sj \<noteq> []))" by simp
    then show ?thesis by blast
  next
    case False
    with Suc.prems step have "beam_loop dec vocab beam n (Suc (fst ps), s1) = Inr ps'" by simp
    from Suc.IH [OF this] obtain k where k: "k \<le> n"
      and cnt: "fst ps' = Suc (fst ps) + k"
      and run: "steps_run dec vocab beam k s1 = Inr (snd ps')"
      and early: "k < n \<longrightarrow> snd (snd ps') = []"
      and mid: "\<forall>j. 0 < j \<and> j < k \<longrightarrow>
                  (\<exists>sj. steps_run dec vocab beam j s1 = Inr sj \<and> snd sj \<noteq> [])"
      by auto
    have "\<forall>j. 0 < j \<and> j < Suc k \<longrightarrow>
            (\<exists>sj. steps_run dec vocab beam j (snd ps) = Inr sj \<and> snd sj \<noteq> [])"
    proof (intro allI impI)
      fix j assume j: "0 < j \<and> j < Suc k"
      then obtain j' where j': "j = Suc j'" by (cases j) auto
      show "\<exists>sj. steps_run dec vocab beam j (snd ps) = Inr sj \<and> snd sj \<noteq> []"
      proof (cases j')
        case 0
        with j' step False show ?thesis by simp
      next
        case (Suc m)
        with j j' have "0 < j' \<and> j' < k" by simp
        with mid have "\<exists>sj. steps_run dec vocab beam j' s1 = Inr sj \<and> snd sj \<noteq> []" by blast
        with j' step show ?thesis by simp
      qed
    qed
    moreover have "steps_run dec vocab beam (Suc k) (snd ps) = Inr (snd ps')"
      using step run by simp
    moreover have "Suc k \<le> Suc n" and "Suc k < Suc n \<longrightarrow> snd (snd ps') = []"
      and "fst ps' = fst ps + Suc k" using k early cnt by simp_all
    ultimately show ?thesis by blast
  qed
qed

lemma beam_loop_error_steps:
  assumes "beam_loop dec vocab beam n ps = Inl e"
  shows "\<exists>k<n. \<exists>s1. steps_run dec vocab beam k (snd ps) = Inr s1 \<and>
                     beam_step dec vocab beam s1 = Inl e"
  using assms
proof (induction n arbitrary: ps)
  case 0
  then show ?case by simp
next
  case (Suc n)
  show ?case
  proof (cases "beam_step dec vocab beam (snd ps)")
    case (Inl e')
    with Suc.prems have "e' = e" by simp
    with Inl have "steps_run dec vocab beam 0 (snd ps) = Inr (snd ps) \<and>
        beam_step dec vocab beam (snd ps) = Inl e" by simp
    then show ?thesis by blast
  next
    case (Inr s1)
    with Suc.prems have "beam_loop dec vocab beam n (Suc (fst ps), s1) = Inl e"
      by (simp split: if_splits)
    from Suc.IH [OF this] obtain k s2 where "k < n"
      and "steps_run dec vocab beam k s1 = Inr s2" and "beam_step dec vocab beam s2 = Inl e"
      by auto
    with Inr have "Suc k < Suc n \<and> steps_run dec vocab beam (Suc k) (snd ps) = Inr s2 \<and>
        beam_step dec vocab beam s2 = Inl e" by simp
    then show ?thesis by blast
  qed
qed

lemma beam_step_length:
  assumes "beam_step dec vocab beam s = Inr s'"
    and "\<forall>p\<in>set (beam_pool s). length (snd p) \<le> j"
  shows "\<forall>p\<in>set (beam_pool s'). length (snd p) \<le> Suc j"
proof
  fix p assume "p \<in> set (beam_pool s')"
  then consider "p \<in> set (fst s')" | c where "c \<in> set (snd s')" and "p = hyp_pair c"
    by (auto simp: beam_pool_eq)
  then show "length (snd p) \<le> Suc j"
  proof cases
    case 1
    then have "p \<in> set (beam_pool s)"
      by (auto simp: beam_step_finished [OF assms(1)] beam_pool_eq)
    with assms(2) show ?thesis by (auto intro: le_SucI)
  next
    case 2
    from beam_step_parent [OF assms(1) 2(1)] obtain hyp i
      where h: "hyp \<in> set (snd s)" and e: "hyp_seq c = hyp_seq hyp @ [i]" by blast
    from h have "hyp_pair hyp \<in> set (beam_pool s)" by (simp add: beam_pool_eq)
    with assms(2) have "length (snd (hyp_pair hyp)) \<le> j" by blast
    then have "length (hyp_seq hyp) \<le> j" by (simp only: snd_hyp_pair)
    with e 2(2) show ?thesis by (simp add: snd_hyp_pair)
  qed
qed

lemma steps_run_length:
  assumes "steps_run dec vocab beam k s = Inr s'"
    and "\<forall>p\<in>set (beam_pool s). length (snd p) \<le> j"
  shows "\<forall>p\<in>set (beam_pool s'). length (snd p) \<le> j + k"
  using assms
proof (induction k arbitrary: s j)
  case 0
  then show ?case by simp
next
  case (Suc k)
  from Suc.prems(1) obtain s1 where step: "beam_step dec vocab beam s = Inr s1"
    and run: "steps_run dec vocab beam k s1 = Inr s'" by (auto split: sum.splits)
  from Suc.IH [OF run beam_step_length [OF step Suc.prems(2)]] show ?case by simp
qed

lemma beam_loop_prefix:
  assumes "beam_loop dec vocab beam n ps = Inr ps'"
  shows "prefix (fst (snd ps)) (fst (snd ps'))"
  using assms
proof (induction n arbitrary: ps)
  case 0
  then show ?case by simp
next
  case (Suc n)
  from Suc.prems obtain s1 where step: "beam_step dec vocab beam (snd ps) = Inr s1"
    by (auto split: sum.splits)
  have p1: "prefix (fst (snd ps)) (fst s1)" by (simp add: beam_step_finished [OF step])
  show ?case
  proof (cases "snd s1 = []")
    case True
    with Suc.prems step p1 show ?thesis by auto
  next
    case False
    with Suc.prems step have "beam_loop dec vocab beam n (Suc (fst ps), s1) = Inr ps'" by simp
    from Suc.IH [OF this] have "prefix (fst s1) (fst (snd ps'))" by simp
    with p1 show ?thesis by (rule prefix_order.trans)
  qed
qed

lemma beam_search_Inr:
  "beam_search dec feats vocab beam max_len = Inr seq \<longleftrightarrow>
     (\<exists>ps best. beam_loop dec vocab beam (nat max_len) (0, beam_init feats) = Inr ps \<and>
        max_by fst (beam_pool (snd ps)) = Inr best \<and> seq = snd best)"
  by (auto simp: beam_search_def split: sum.splits)

lemma beam_search_Inl:
  "beam_search dec feats vocab beam max_len = Inl e \<longleftrightarrow>
     beam_loop dec vocab beam (nat max_len) (0, beam_init feats) = Inl e \<or>
     (\<exists>ps. beam_loop dec vocab beam (nat max_len) (0, beam_init feats) = Inr ps \<and>
        max_by fst (beam_pool (snd ps)) = Inl e)"
  by (auto simp: beam_search_def split: sum.splits)

lemma beam_loop_init_Inl:
  assumes "beam_loop dec vocab beam n (0, beam_init feats) = Inl e"
  shows "e = KeyError \<or> e = RuntimeError"
proof (cases n)
  case 0
  with assms show ?thesis by simp
next
  case (Suc m)
  show ?thesis
  proof (cases "beam_step dec vocab beam (beam_init feats)")
    case (Inl e')
    with assms Suc have "e' = e" by simp
    with beam_step_init_Inl [OF Inl] show ?thesis by simp
  next
    case (Inr s1)
    from beam_step_init_Inr [OF Inr] have c: "\<forall>hyp\<in>set (snd s1). carried hyp" by simp
    show ?thesis
    proof (cases "snd s1 = []")
      case True
      with assms Suc Inr show ?thesis by simp
    next
      case False
      with assms Suc Inr have l: "beam_loop dec vocab beam m (Suc 0, s1) = Inl e" by simp
      show ?thesis
      proof (cases m)
        case 0
        with l show ?thesis by simp
      next
        case m: (Suc m')
        show ?thesis
        proof (cases "beam_step dec vocab beam s1")
          case (Inl e')
          with l m have "e' = e" by simp
          with beam_step_carried_Inl [OF c Inl] show ?thesis by simp
        next
          case s2: (Inr s2)
          from beam_step_carried_Inr [OF c s2] have "snd s2 = []" by simp
          with l m s2 show ?thesis by simp
        qed
      qed
    qed
  qed
qed

lemma beam_loop_init_Inr:
  assumes "1 \<le> beam" and "beam_loop dec vocab beam (Suc m) (0, beam_init feats) = Inr ps"
  shows "(fst ps = 1 \<and> m = 0 \<and> fst (snd ps) = [] \<and> snd (snd ps) \<noteq> [] \<and>
            (\<forall>hyp\<in>set (snd (snd ps)). carried hyp)) \<or>
         (fst ps = 2 \<and> snd (snd ps) = [] \<and> fst (snd ps) \<noteq> [] \<and>
            (\<forall>q\<in>set (fst (snd ps)). snd q \<noteq> []))"
proof -
  from assms(2) obtain s1 where s1: "beam_step dec vocab beam (beam_init feats) = Inr s1"
    by (auto simp: beam_init_def split: sum.splits)
  from beam_step_init_Inr [OF s1] have f1: "fst s1 = []" and len: "length (snd s1) = nat beam"
    and c: "\<forall>hyp\<in>set (snd s1). carried hyp" by simp_all
  from len assms(1) have ne: "snd s1 \<noteq> []" by auto
  with assms(2) s1 have l: "beam_loop dec vocab beam m (Suc 0, s1) = Inr ps" by simp
  show ?thesis
  proof (cases m)
    case 0
    with l have "ps = (Suc 0, s1)" by simp
    with 0 f1 ne c show ?thesis by simp
  next
    case (Suc m')
    with l obtain s2 where s2: "beam_step dec vocab beam s1 = Inr s2"
      by (auto split: sum.splits)
    from beam_step_carried_Inr [OF c s2] f1 have e2: "s2 = (map hyp_pair (snd s1), [])"
      by simp
    with l Suc s2 have ps: "ps = (Suc (Suc 0), s2)" by simp
    have "\<forall>q\<in>set (map hyp_pair (snd s1)). snd q \<noteq> []"
      using c by (auto simp: snd_hyp_pair dest: carried_nonempty)
    with ps e2 ne show ?thesis by simp
  qed
qed

lemma fst_hyp_pair: "fst (hyp_pair hyp) = fst hyp"
  by (simp add: hyp_pair_def)

section \<open>Evaluating the search on concrete decoders\<close>

lemmas toy_eval = beam_search_def beam_init_def beam_step_def toy_decoder_def eager_decoder_def
  Vocabulary_init_def special_tokens_def topk_def sorted_desc_def beam_inner_def ends_in_eos_def
  py_last_def dict_item_def beam_pool_def lstm_forward_def py_take_def upt_rec numeral_nat

section \<open>Claims about beam search\<close>

text \<open>
  C9. For every beam width of at least 1 and every step limit of at least 1,
  \<open>beam_search\<close> never reads the last token of an empty hypothesis (the test for the
  end-of-sequence token is guarded, so it raises no IndexError, and the search raises
  none), the final maximum is taken over a non-empty list (the search raises no
  ValueError), and a returned sequence is non-empty.
\<close>

theorem beam_search_safe:
  assumes "1 \<le> beam" and "1 \<le> max_len"
  shows "(\<forall>seq. ends_in_eos vocab seq \<noteq> Inl IndexError) \<and>
         beam_search dec feats vocab beam max_len \<noteq> Inl IndexError \<and>
         (\<forall>ps. beam_loop dec vocab beam (nat max_len) (0, beam_init feats) = Inr ps \<longrightarrow>
            beam_pool (snd ps) \<noteq> []) \<and>
         beam_search dec feats vocab beam max_len \<noteq> Inl ValueError \<and>
         (\<forall>seq. beam_search dec feats vocab beam max_len = Inr seq \<longrightarrow> seq \<noteq> [])"
proof -
  from assms(2) obtain m where m: "nat max_len = Suc m" by (cases "nat max_len") auto
  have shape: "(fst (snd ps) = [] \<and> snd (snd ps) \<noteq> [] \<and>
                  (\<forall>hyp\<in>set (snd (snd ps)). carried hyp)) \<or>
               (snd (snd ps) = [] \<and> fst (snd ps) \<noteq> [] \<and>
                  (\<forall>q\<in>set (fst (snd ps)). snd q \<noteq> []))"
    if "beam_loop dec vocab beam (nat max_len) (0, beam_init feats) = Inr ps" for ps
    using beam_loop_init_Inr [OF assms(1), of dec vocab m feats ps] that m by auto
  have pool: "beam_pool (snd ps) \<noteq> []"
    if "beam_loop dec vocab beam (nat max_len) (0, beam_init feats) = Inr ps" for ps
    using shape [OF that] by (auto simp: beam_pool_eq)
  have seqs: "\<forall>q\<in>set (beam_pool (snd ps)). snd q \<noteq> []"
    if "beam_loop dec vocab beam (nat max_len) (0, beam_init feats) = Inr ps" for ps
  proof
    fix q assume q: "q \<in> set (beam_pool (snd ps))"
    from shape [OF that] show "snd q \<noteq> []"
    proof
      assume a: "fst (snd ps) = [] \<and> snd (snd ps) \<noteq> [] \<and>
                  (\<forall>hyp\<in>set (snd (snd ps)). carried hyp)"
      with q obtain hyp where "hyp \<in> set (snd (snd ps))" and "q = hyp_pair hyp"
        unfolding beam_pool_eq by auto
      with a show ?thesis by (simp add: snd_hyp_pair carried_nonempty)
    next
      assume "snd (snd ps) = [] \<and> fst (snd ps) \<noteq> [] \<and>
                  (\<forall>q\<in>set (fst (snd ps)). snd q \<noteq> [])"
      with q show ?thesis unfolding beam_pool_eq by simp
    qed
  qed
  have guard: "\<forall>seq. ends_in_eos vocab seq \<noteq> Inl IndexError"
    by (auto dest: ends_in_eos_Inl)
  have err: "e = KeyError \<or> e = RuntimeError"
    if "beam_search dec feats vocab beam max_len = Inl e" for e
  proof -
    from that consider "beam_loop dec vocab beam (nat max_len) (0, beam_init feats) = Inl e"
      | ps where "beam_loop dec vocab beam (nat max_len) (0, beam_init feats) = Inr ps"
        and "max_by fst (beam_pool (snd ps)) = Inl e"
      unfolding beam_search_Inl by blast
    then show ?thesis
    proof cases
      case 1
      then show ?thesis by (rule beam_loop_init_Inl)
    next
      case 2
      with pool [OF 2(1)] show ?thesis by (simp add: max_by_Inl)
    qed
  qed
  have ne: "seq \<noteq> []" if "beam_search dec feats vocab beam max_len = Inr seq" for seq
  proof -
    from that obtain ps best
      where l: "beam_loop dec vocab beam (nat max_len) (0, beam_init feats) = Inr ps"
        and b: "max_by fst (beam_pool (snd ps)) = Inr best" and seq: "seq = snd best"
      unfolding beam_search_Inr by blast
    from seqs [OF l] max_by_mem [OF b] seq show ?thesis by simp
  qed
  from err have "beam_search dec feats vocab beam max_len \<noteq> Inl IndexError"
    and "beam_search dec feats vocab beam max_len \<noteq> Inl ValueError" by auto
  with guard pool ne show ?thesis by blast
qed

text \<open>
  Two searches that return: the toy decoder with beam width 3 and one pass, and the
  eager decoder with beam width 1, whose only hypothesis ends after the first pass.
\<close>

theorem beam_search_safe_witness:
  "(1::int) \<le> 3 \<and> (1::int) \<le> 1 \<and> (1::int) \<le> 5 \<and>
   beam_search toy_decoder () (Vocabulary_init 5) 3 1 = Inr [4] \<and>
   beam_search toy_decoder () (Vocabulary_init 5) 3 1 \<noteq> Inl IndexError \<and>
   beam_search toy_decoder () (Vocabulary_init 5) 3 1 \<noteq> Inl ValueError \<and>
   beam_search eager_decoder () (Vocabulary_init 5) 1 5 = Inr [2]"
  using beam_search_safe [where beam = 3 and max_len = 1 and dec = toy_decoder
      and vocab = "Vocabulary_init 5" and feats = "()"]
    beam_search_safe [where beam = 1 and max_len = 5 and dec = eager_decoder
      and vocab = "Vocabulary_init 5" and feats = "()"]
  by (simp add: toy_eval)

text \<open>
  C4, amended. \<open>beam_search\<close> runs at most \<open>max_len\<close> passes (none for a
  \<open>max_len\<close> below 1) and stops early as soon as no active hypothesis remains after
  a pass: the number of passes made is the first component of the loop's result, the
  state at the end is the state after that many passes, after every earlier pass some
  hypothesis was active, and fewer than \<open>max_len\<close> passes are made only when none is
  active at the end. A run that raises does so within \<open>max_len\<close> passes. Consequently,
  for a \<open>max_len\<close> of at least 0, a returned sequence has at most \<open>max_len\<close> tokens.
\<close>

theorem beam_search_step_limit:
  "(\<forall>ps. beam_loop dec vocab beam (nat max_len) (0, beam_init feats) = Inr ps \<longrightarrow>
      int (fst ps) \<le> max 0 max_len \<and>
      steps_run dec vocab beam (fst ps) (beam_init feats) = Inr (snd ps) \<and>
      (int (fst ps) < max_len \<longrightarrow> snd (snd ps) = []) \<and>
      (\<forall>j. 0 < j \<and> j < fst ps \<longrightarrow>
         (\<exists>sj. steps_run dec vocab beam j (beam_init feats) = Inr sj \<and> snd sj \<noteq> []))) \<and>
   (\<forall>e. beam_loop dec vocab beam (nat max_len) (0, beam_init feats) = Inl e \<longrightarrow>
      (\<exists>k. int k < max_len \<and>
         (\<exists>s. steps_run dec vocab beam k (beam_init feats) = Inr s \<and>
              beam_step dec vocab beam s = Inl e))) \<and>
   (\<forall>seq. 0 \<le> max_len \<and> beam_search dec feats vocab beam max_len = Inr seq \<longrightarrow>
      int (length seq) \<le> max_len)"
proof -
  have A: "\<forall>ps. beam_loop dec vocab beam (nat max_len) (0, beam_init feats) = Inr ps \<longrightarrow>
      int (fst ps) \<le> max 0 max_len \<and>
      steps_run dec vocab beam (fst ps) (beam_init feats) = Inr (snd ps) \<and>
      (int (fst ps) < max_len \<longrightarrow> snd (snd ps) = []) \<and>
      (\<forall>j. 0 < j \<and> j < fst ps \<longrightarrow>
         (\<exists>sj. steps_run dec vocab beam j (beam_init feats) = Inr sj \<and> snd sj \<noteq> []))"
  proof (intro allI impI)
    fix ps assume l: "beam_loop dec vocab beam (nat max_len) (0, beam_init feats) = Inr ps"
    from beam_loop_steps [OF l] obtain k where k: "k \<le> nat max_len" and cnt: "fst ps = k"
      and run: "steps_run dec vocab beam k (beam_init feats) = Inr (snd ps)"
      and early: "k < nat max_len \<longrightarrow> snd (snd ps) = []"
      and mid: "\<forall>j. 0 < j \<and> j < k \<longrightarrow>
         (\<exists>sj. steps_run dec vocab beam j (beam_init feats) = Inr sj \<and> snd sj \<noteq> [])"
      by auto
    from k cnt have 1: "int (fst ps) \<le> max 0 max_len" by simp
    from run cnt have 2: "steps_run dec vocab beam (fst ps) (beam_init feats) = Inr (snd ps)"
      by simp
    from early cnt have 3: "int (fst ps) < max_len \<longrightarrow> snd (snd ps) = []" by simp
    from mid cnt have 4: "\<forall>j. 0 < j \<and> j < fst ps \<longrightarrow>
         (\<exists>sj. steps_run dec vocab beam j (beam_init feats) = Inr sj \<and> snd sj \<noteq> [])"
      by simp
    from 1 2 3 4 show "int (fst ps) \<le> max 0 max_len \<and>
      steps_run dec vocab beam (fst ps) (beam_init feats) = Inr (snd ps) \<and>
      (int (fst ps) < max_len \<longrightarrow> snd (snd ps) = []) \<and>
      (\<forall>j. 0 < j \<and> j < fst ps \<longrightarrow>
         (\<exists>sj. steps_run dec vocab beam j (beam_init feats) = Inr sj \<and> snd sj \<noteq> []))"
      by (intro conjI)
  qed
  have B: "\<forall>e. beam_loop dec vocab beam (nat max_len) (0, beam_init feats) = Inl e \<longrightarrow>
      (\<exists>k. int k < max_len \<and>
         (\<exists>s. steps_run dec vocab beam k (beam_init feats) = Inr s \<and>
              beam_step dec vocab beam s = Inl e))"
  proof (intro allI impI)
    fix e assume "beam_loop dec vocab beam (nat max_len) (0, beam_init feats) = Inl e"
    from beam_loop_error_steps [OF this] obtain k s where k: "k < nat max_len"
      and r: "steps_run dec vocab beam k (beam_init feats) = Inr s"
      and e: "beam_step dec vocab beam s = Inl e" by auto
    from k have "int k < max_len" by simp
    with r e show "\<exists>k. int k < max_len \<and>
         (\<exists>s. steps_run dec vocab beam k (beam_init feats) = Inr s \<and>
              beam_step dec vocab beam s = Inl e)" by blast
  qed
  have C: "\<forall>seq. 0 \<le> max_len \<and> beam_search dec feats vocab beam max_len = Inr seq \<longrightarrow>
      int (length seq) \<le> max_len"
  proof (intro allI impI)
    fix seq assume a: "0 \<le> max_len \<and> beam_search dec feats vocab beam max_len = Inr seq"
    then obtain ps best
      where l: "beam_loop dec vocab beam (nat max_len) (0, beam_init feats) = Inr ps"
        and b: "max_by fst (beam_pool (snd ps)) = Inr best" and seq: "seq = snd best"
      unfolding beam_search_Inr by blast
    from beam_loop_steps [OF l] obtain k where k: "k \<le> nat max_len"
      and run: "steps_run dec vocab beam k (beam_init feats) = Inr (snd ps)" by auto
    have "\<forall>p\<in>set (beam_pool (snd ps)). length (snd p) \<le> 0 + k"
      by (rule steps_run_length [OF run]) (simp add: beam_pool_def beam_init_def)
    with max_by_mem [OF b] seq have "length seq \<le> k" by auto
    with k have "length seq \<le> nat max_len" by simp
    moreover from a have "0 \<le> max_len" by simp
    ultimately show "int (length seq) \<le> max_len" by linarith
  qed
  show ?thesis by (rule conjI [OF A conjI [OF B C]])
qed

text \<open>
  The eager decoder with beam width 1 and step limit 5 stops after the second pass; the
  toy decoder with step limit 1 makes its one pass, and with step limit 2 raises in the
  second.
\<close>

theorem beam_search_step_limit_witness:
  "beam_loop eager_decoder (Vocabulary_init 5) 1 (nat 5) (0, beam_init ())
     = Inr (2, [(- 1, [2])], []) \<and>
   int 2 \<le> max 0 5 \<and> int 2 < 5 \<and>
   steps_run eager_decoder (Vocabulary_init 5) 1 2 (beam_init ()) = Inr ([(- 1, [2])], []) \<and>
   (0::int) \<le> 5 \<and>
   beam_search eager_decoder () (Vocabulary_init 5) 1 5 = Inr [2] \<and>
   int (length [2::nat]) \<le> 5 \<and>
   (0::int) \<le> 1 \<and>
   beam_search toy_decoder () (Vocabulary_init 5) 3 1 = Inr [4] \<and>
   int (length [4::nat]) \<le> 1 \<and>
   beam_loop toy_decoder (Vocabulary_init 5) 3 (nat 2) (0, beam_init ()) = Inl RuntimeError \<and>
   int 1 < 2 \<and>
   steps_run toy_decoder (Vocabulary_init 5) 3 1 (beam_init ())
     = Inr ([], [(- 1, [4], Some (Batched, ()), (Unbatched, ())),
                 (- 2, [3], Some (Batched, ()), (Unbatched, ())),
                 (- 3, [2], Some (Batched, ()), (Unbatched, ()))]) \<and>
   beam_step toy_decoder (Vocabulary_init 5) 3
     ([], [(- 1, [4], Some (Batched, ()), (Unbatched, ())),
           (- 2, [3], Some (Batched, ()), (Unbatched, ())),
           (- 3, [2], Some (Batched, ()), (Unbatched, ()))]) = Inl RuntimeError"
  using beam_search_step_limit [where max_len = 5 and beam = 1 and dec = eager_decoder
      and vocab = "Vocabulary_init 5" and feats = "()"]
    beam_search_step_limit [where max_len = 1 and beam = 3 and dec = toy_decoder
      and vocab = "Vocabulary_init 5" and feats = "()"]
    beam_search_step_limit [where max_len = 2 and beam = 3 and dec = toy_decoder
      and vocab = "Vocabulary_init 5" and feats = "()"]
  by (simp add: toy_eval)

text \<open>
  C4 as stated fails for a negative step limit: \<^verbatim>\<open>range(-1)\<close> is empty, the search
  returns the empty sequence of the initial hypothesis, and its length 0 is not at most
  \<open>- 1\<close>.
\<close>

theorem negative_step_limit_counterexample:
  "beam_search toy_decoder () (Vocabulary_init 5) 3 (- 1) = Inr [] \<and>
   \<not> int (length ([] :: nat list)) \<le> - 1"
  by (simp add: toy_eval)

text \<open>
  C3. In a pass that completes, every hypothesis whose sequence is non-empty and ends
  in the end-of-sequence token is appended to \<open>finished\<close> (with its score and sequence,
  behind the entries already there); every hypothesis of the next pass extends, by one
  token, a hypothesis that had not ended, so an ended one is not expanded; and through
  all later passes the finished list only grows at its end: what is in it is never
  modified, up to the list the final maximum is taken over.
\<close>

theorem finished_hypotheses_frozen:
  assumes "beam_step dec vocab beam s = Inr s'"
  shows "fst s' = fst s @ map hyp_pair (filter (\<lambda>hyp. ended vocab (hyp_seq hyp)) (snd s)) \<and>
         (\<forall>c\<in>set (snd s'). \<exists>hyp\<in>set (snd s).
            \<not> ended vocab (hyp_seq hyp) \<and> (\<exists>i. hyp_seq c = hyp_seq hyp @ [i])) \<and>
         (\<forall>n p ps. beam_loop dec vocab beam n (p, s') = Inr ps \<longrightarrow>
            prefix (fst s') (fst (snd ps)) \<and> prefix (fst s') (beam_pool (snd ps)))"
proof (intro conjI ballI allI impI)
  show "fst s' = fst s @ map hyp_pair (filter (\<lambda>hyp. ended vocab (hyp_seq hyp)) (snd s))"
    using assms by (rule beam_step_finished)
next
  fix c assume "c \<in> set (snd s')"
  with assms show "\<exists>hyp\<in>set (snd s).
      \<not> ended vocab (hyp_seq hyp) \<and> (\<exists>i. hyp_seq c = hyp_seq hyp @ [i])"
    by (rule beam_step_parent)
next
  fix n p ps assume l: "beam_loop dec vocab beam n (p, s') = Inr ps"
  from beam_loop_prefix [OF l] show p: "prefix (fst s') (fst (snd ps))" by simp
  then show "prefix (fst s') (beam_pool (snd ps))"
    unfolding beam_pool_eq by (rule prefix_prefix)
qed

text \<open>
  The second pass of the eager decoder with beam width 1: the hypothesis \<open>[2]\<close> has
  ended and is moved to \<open>finished\<close>.
\<close>

theorem finished_hypotheses_frozen_witness:
  "steps_run eager_decoder (Vocabulary_init 5) 1 1 (beam_init ())
     = Inr ([], [(- 1, [2], Some (Batched, ()), (Unbatched, ()))]) \<and>
   beam_step eager_decoder (Vocabulary_init 5) 1
     ([], [(- 1, [2], Some (Batched, ()), (Unbatched, ()))])
     = Inr ([(- 1, [2])], []) \<and>
   fst ([(- 1 :: int, [2 :: nat])], [] :: (int, unit, unit) hyp list)
     = [] @ map hyp_pair (filter (\<lambda>hyp. ended (Vocabulary_init 5) (hyp_seq hyp))
         [(- 1 :: int, [2], Some (Batched, ()), (Unbatched, ()))]) \<and>
   beam_loop eager_decoder (Vocabulary_init 5) 1 0 (2, [(- 1, [2])], [])
     = Inr (2, [(- 1, [2])], []) \<and>
   prefix [(- 1 :: int, [2 :: nat])]
     (beam_pool ([(- 1, [2])], [] :: (int, unit, unit) hyp list))"
proof -
  have run: "steps_run eager_decoder (Vocabulary_init 5) 1 1 (beam_init ())
     = Inr ([], [(- 1, [2], Some (Batched, ()), (Unbatched, ()))])"
    by (simp add: toy_eval)
  have step: "beam_step eager_decoder (Vocabulary_init 5) 1
     ([], [(- 1, [2], Some (Batched, ()), (Unbatched, ()))])
     = Inr ([(- 1, [2])], [])"
    by (simp add: toy_eval)
  have loop: "beam_loop eager_decoder (Vocabulary_init 5) 1 0 (2, [(- 1, [2])], [])
     = Inr (2, [(- 1, [2])], [])"
    by simp
  from finished_hypotheses_frozen [OF step] run step loop show ?thesis
    by (simp add: beam_pool_def)
qed

text \<open>
  C1. The claim is that, for a beam width and a step limit of at least 1, the search
  returns the highest-scoring finished sequence and, only when none has finished, the
  highest-scoring active one. The code does not return on such inputs in general: with
  the toy decoder, beam width 3 and step limit 2, the first pass leaves three hypotheses,
  and the second pass calls the cell for the hypothesis \<open>[4]\<close> with a 2-D input and
  the 3-D state of the first pass, which raises RuntimeError. Whenever the search does
  return, finished and active hypotheses are not both present at the end, and the
  returned sequence is the highest-scoring finished one, or the highest-scoring active
  one when none has finished.
\<close>

theorem beam_search_raises_in_second_pass:
  assumes "1 \<le> beam" and "1 \<le> max_len"
  shows "steps_run toy_decoder (Vocabulary_init 5) 3 1 (beam_init ())
           = Inr ([], [(- 1, [4], Some (Batched, ()), (Unbatched, ())),
                       (- 2, [3], Some (Batched, ()), (Unbatched, ())),
                       (- 3, [2], Some (Batched, ()), (Unbatched, ()))]) \<and>
         beam_step toy_decoder (Vocabulary_init 5) 3
           ([], [(- 1, [4], Some (Batched, ()), (Unbatched, ())),
                 (- 2, [3], Some (Batched, ()), (Unbatched, ())),
                 (- 3, [2], Some (Batched, ()), (Unbatched, ()))]) = Inl RuntimeError \<and>
         beam_search toy_decoder () (Vocabulary_init 5) 3 2 = Inl RuntimeError \<and>
         (\<forall>seq. beam_search dec feats vocab beam max_len = Inr seq \<longrightarrow>
            (\<exists>ps sc. beam_loop dec vocab beam (nat max_len) (0, beam_init feats) = Inr ps \<and>
               (fst (snd ps) = [] \<or> snd (snd ps) = []) \<and>
               (fst (snd ps) \<noteq> [] \<longrightarrow>
                  (sc, seq) \<in> set (fst (snd ps)) \<and> (\<forall>p\<in>set (fst (snd ps)). fst p \<le> sc)) \<and>
               (fst (snd ps) = [] \<longrightarrow>
                  (sc, seq) \<in> hyp_pair ` set (snd (snd ps)) \<and>
                  (\<forall>hyp\<in>set (snd (snd ps)). fst hyp \<le> sc))))"
proof -
  have run: "steps_run toy_decoder (Vocabulary_init 5) 3 1 (beam_init ())
           = Inr ([], [(- 1, [4], Some (Batched, ()), (Unbatched, ())),
                       (- 2, [3], Some (Batched, ()), (Unbatched, ())),
                       (- 3, [2], Some (Batched, ()), (Unbatched, ()))])"
    by (simp add: toy_eval)
  have step: "beam_step toy_decoder (Vocabulary_init 5) 3
           ([], [(- 1, [4], Some (Batched, ()), (Unbatched, ())),
                 (- 2, [3], Some (Batched, ()), (Unbatched, ())),
                 (- 3, [2], Some (Batched, ()), (Unbatched, ()))]) = Inl RuntimeError"
    by (simp add: toy_eval)
  have raises: "beam_search toy_decoder () (Vocabulary_init 5) 3 2 = Inl RuntimeError"
    by (simp add: toy_eval)
  from assms(2) obtain m where m: "nat max_len = Suc m" by (cases "nat max_len") auto
  have ret: "\<forall>seq. beam_search dec feats vocab beam max_len = Inr seq \<longrightarrow>
            (\<exists>ps sc. beam_loop dec vocab beam (nat max_len) (0, beam_init feats) = Inr ps \<and>
               (fst (snd ps) = [] \<or> snd (snd ps) = []) \<and>
               (fst (snd ps) \<noteq> [] \<longrightarrow>
                  (sc, seq) \<in> set (fst (snd ps)) \<and> (\<forall>p\<in>set (fst (snd ps)). fst p \<le> sc)) \<and>
               (fst (snd ps) = [] \<longrightarrow>
                  (sc, seq) \<in> hyp_pair ` set (snd (snd ps)) \<and>
                  (\<forall>hyp\<in>set (snd (snd ps)). fst hyp \<le> sc)))"
  proof (intro allI impI)
    fix seq assume "beam_search dec feats vocab beam max_len = Inr seq"
    then obtain ps best
      where l: "beam_loop dec vocab beam (nat max_len) (0, beam_init feats) = Inr ps"
        and b: "max_by fst (beam_pool (snd ps)) = Inr best" and seq: "seq = snd best"
      unfolding beam_search_Inr by blast
    have best: "best = (fst best, seq)" using seq by simp
    from beam_loop_init_Inr [OF assms(1), of dec vocab m feats ps] l m
    have either: "fst (snd ps) = [] \<or> snd (snd ps) = []" by auto
    have mem: "(fst best, seq) \<in> set (beam_pool (snd ps))" using max_by_mem [OF b] best by simp
    have mx: "\<forall>p\<in>set (beam_pool (snd ps)). fst p \<le> fst best" using max_by_max [OF b] by blast
    have fin: "fst (snd ps) \<noteq> [] \<longrightarrow>
        (fst best, seq) \<in> set (fst (snd ps)) \<and> (\<forall>p\<in>set (fst (snd ps)). fst p \<le> fst best)"
    proof
      assume "fst (snd ps) \<noteq> []"
      with either have "snd (snd ps) = []" by simp
      then have "beam_pool (snd ps) = fst (snd ps)" by (simp add: beam_pool_eq)
      with mem mx show "(fst best, seq) \<in> set (fst (snd ps)) \<and>
          (\<forall>p\<in>set (fst (snd ps)). fst p \<le> fst best)" by simp
    qed
    have act: "fst (snd ps) = [] \<longrightarrow>
        (fst best, seq) \<in> hyp_pair ` set (snd (snd ps)) \<and>
        (\<forall>hyp\<in>set (snd (snd ps)). fst hyp \<le> fst best)"
    proof
      assume "fst (snd ps) = []"
      then have p: "beam_pool (snd ps) = map hyp_pair (snd (snd ps))" by (simp add: beam_pool_eq)
      have "\<forall>hyp\<in>set (snd (snd ps)). fst hyp \<le> fst best"
      proof
        fix hyp assume "hyp \<in> set (snd (snd ps))"
        then have "hyp_pair hyp \<in> set (beam_pool (snd ps))" by (simp add: p)
        with mx have "fst (hyp_pair hyp) \<le> fst best" by blast
        then show "fst hyp \<le> fst best" by (simp only: fst_hyp_pair)
      qed
      moreover from mem p have "(fst best, seq) \<in> hyp_pair ` set (snd (snd ps))" by simp
      ultimately show "(fst best, seq) \<in> hyp_pair ` set (snd (snd ps)) \<and>
        (\<forall>hyp\<in>set (snd (snd ps)). fst hyp \<le> fst best)" by simp
    qed
    from l either fin act show "\<exists>ps sc.
        beam_loop dec vocab beam (nat max_len) (0, beam_init feats) = Inr ps \<and>
               (fst (snd ps) = [] \<or> snd (snd ps) = []) \<and>
               (fst (snd ps) \<noteq> [] \<longrightarrow>
                  (sc, seq) \<in> set (fst (snd ps)) \<and> (\<forall>p\<in>set (fst (snd ps)). fst p \<le> sc)) \<and>
               (fst (snd ps) = [] \<longrightarrow>
                  (sc, seq) \<in> hyp_pair ` set (snd (snd ps)) \<and>
                  (\<forall>hyp\<in>set (snd (snd ps)). fst hyp \<le> sc))"
      by (intro exI [of _ ps] exI [of _ "fst best"] conjI)
  qed
  show ?thesis by (rule conjI [OF run conjI [OF step conjI [OF raises ret]]])
qed

text \<open>
  The two kinds of search that return: the eager decoder with beam width 1 (one finished
  hypothesis, none active) and the toy decoder with one pass (none finished).
\<close>

theorem beam_search_raises_in_second_pass_witness:
  "(1::int) \<le> 1 \<and> (1::int) \<le> 5 \<and>
   beam_search eager_decoder () (Vocabulary_init 5) 1 5 = Inr [2] \<and>
   beam_loop eager_decoder (Vocabulary_init 5) 1 (nat 5) (0, beam_init ())
     = Inr (2, [(- 1, [2])], []) \<and>
   (1::int) \<le> 3 \<and>
   beam_search toy_decoder () (Vocabulary_init 5) 3 1 = Inr [4] \<and>
   beam_loop toy_decoder (Vocabulary_init 5) 3 (nat 1) (0, beam_init ())
     = Inr (1, [], [(- 1, [4], Some (Batched, ()), (Unbatched, ())),
                    (- 2, [3], Some (Batched, ()), (Unbatched, ())),
                    (- 3, [2], Some (Batched, ()), (Unbatched, ()))])"
  using beam_search_raises_in_second_pass [where beam = 1 and max_len = 5
      and dec = eager_decoder and vocab = "Vocabulary_init 5" and feats = "()"]
    beam_search_raises_in_second_pass [where beam = 3 and max_len = 1
      and dec = toy_decoder and vocab = "Vocabulary_init 5" and feats = "()"]
  by (simp add: toy_eval)

text \<open>
  C2. The claim is that at every decoding step each hypothesis that has not ended is
  expanded by its \<open>beam\<close> most likely tokens. In the code this holds of the first
  pass only: with the toy decoder, beam width 1 and step limit 2, the first pass leaves
  the hypothesis \<open>[4]\<close>, which has not ended, and the second pass does not expand
  it: the call of the cell with its 2-D input and 3-D state raises RuntimeError, and so
  does the search.
\<close>

theorem live_hypothesis_raises:
  "steps_run toy_decoder (Vocabulary_init 5) 1 1 (beam_init ())
     = Inr ([], [(- 1, [4], Some (Batched, ()), (Unbatched, ()))]) \<and>
   \<not> ended (Vocabulary_init 5) [4] \<and>
   lstm_forward toy_decoder (Unbatched, ()) (Some (Batched, ())) = Inl RuntimeError \<and>
   beam_step toy_decoder (Vocabulary_init 5) 1
     ([], [(- 1, [4], Some (Batched, ()), (Unbatched, ()))]) = Inl RuntimeError \<and>
   beam_search toy_decoder () (Vocabulary_init 5) 1 2 = Inl RuntimeError"
  by (simp add: toy_eval ended_def)

section \<open>Tokens, counters and the vocabulary\<close>

lemma lower_char_not_upper: "\<not> is_upper_ascii (lower_char c)"
proof -
  have "(of_char c :: nat) < 256" by simp
  then show ?thesis
    by (auto simp: is_upper_ascii_def lower_char_def Let_def)
qed

lemma split_words_chars: "tok \<in> set (split_words w s) \<Longrightarrow> set tok \<subseteq> set w \<union> set s"
proof (induction s arbitrary: w)
  case Nil
  then show ?case by (auto split: if_splits)
next
  case (Cons c cs)
  show ?case
  proof (cases "isspace c")
    case True
    with Cons.prems have "tok = w \<or> tok \<in> set (split_words [] cs)" by (auto split: if_splits)
    then show ?thesis using Cons.IH [of "[]"] by auto
  next
    case False
    with Cons.prems have "tok \<in> set (split_words (w @ [c]) cs)" by simp
    from Cons.IH [OF this] show ?thesis by auto
  qed
qed

lemma split_words_nonempty: "tok \<in> set (split_words w s) \<Longrightarrow> tok \<noteq> []"
proof (induction s arbitrary: w)
  case Nil
  then show ?case by (auto split: if_splits)
next
  case (Cons c cs)
  show ?case
  proof (cases "isspace c")
    case True
    with Cons.prems have "(tok = w \<and> w \<noteq> []) \<or> tok \<in> set (split_words [] cs)"
      by (auto split: if_splits)
    then show ?thesis using Cons.IH [of "[]"] by auto
  next
    case False
    with Cons.prems have "tok \<in> set (split_words (w @ [c]) cs)" by simp
    from Cons.IH [OF this] show ?thesis .
  qed
qed

lemma split_words_no_space:
  "tok \<in> set (split_words w s) \<Longrightarrow> \<forall>c\<in>set w. \<not> isspace c \<Longrightarrow> \<forall>c\<in>set tok. \<not> isspace c"
proof (induction s arbitrary: w)
  case Nil
  then show ?case by (auto split: if_splits)
next
  case (Cons c cs)
  show ?case
  proof (cases "isspace c")
    case True
    with Cons.prems(1) have "tok = w \<or> tok \<in> set (split_words [] cs)" by (auto split: if_splits)
    then show ?thesis using Cons.IH [of "[]"] Cons.prems(2) by auto
  next
    case False
    with Cons.prems(1) have "tok \<in> set (split_words (w @ [c]) cs)" by simp
    moreover from False Cons.prems(2) have "\<forall>d\<in>set (w @ [c]). \<not> isspace d" by simp
    ultimately show ?thesis by (rule Cons.IH)
  qed
qed

lemma py_strip_chars: "set (py_strip s) \<subseteq> set s"
  unfolding py_strip_def by (auto dest!: set_dropWhileD)

lemma tokenize_chars:
  assumes "tok \<in> set (tokenize text)" and "c \<in> set tok"
  shows "\<not> is_upper_ascii c \<and> \<not> isspace c"
proof -
  from assms(1) have t: "tok \<in> set (split_words [] (py_strip (py_lower text)))"
    by (simp add: tokenize_def py_split_def)
  from split_words_chars [OF t] assms(2) have "c \<in> set (py_strip (py_lower text))" by auto
  with py_strip_chars have "c \<in> set (py_lower text)" by blast
  then have "\<not> is_upper_ascii c" by (auto simp: py_lower_def lower_char_not_upper)
  moreover from split_words_no_space [OF t] assms(2) have "\<not> isspace c" by simp
  ultimately show ?thesis by simp
qed

lemma tokenize_nonempty: "tok \<in> set (tokenize text) \<Longrightarrow> tok \<noteq> []"
  by (auto simp: tokenize_def py_split_def dest: split_words_nonempty)

lemma special_has_upper: "(i, s) \<in> set special_tokens \<Longrightarrow> \<exists>c\<in>set s. is_upper_ascii c"
  by (auto simp: special_tokens_def is_upper_ascii_def)

lemma tokenize_not_special:
  "tok \<in> set (tokenize text) \<Longrightarrow> (i, tok) \<notin> set special_tokens"
  using special_has_upper tokenize_chars by blast

lemma keys_counter_add:
  "map fst (counter_add freqs tok) =
     (if tok \<in> fst ` set freqs then map fst freqs else map fst freqs @ [tok])"
proof (induction freqs)
  case Nil
  show ?case by simp
next
  case (Cons p rest)
  obtain k n where p: "p = (k, n)" by (cases p) auto
  show ?case
  proof (cases "k = tok")
    case True
    then show ?thesis by (simp add: p)
  next
    case False
    then show ?thesis using Cons.IH by (simp add: p)
  qed
qed

lemma keys_counter_update:
  "fst ` set (counter_update freqs toks) = fst ` set freqs \<union> set toks"
  unfolding counter_update_def
proof (induction toks arbitrary: freqs)
  case Nil
  show ?case by simp
next
  case (Cons t ts)
  have "fst ` set (counter_add freqs t) = insert t (fst ` set freqs)"
  proof -
    have "fst ` set (counter_add freqs t) = set (map fst (counter_add freqs t))" by simp
    also have "\<dots> = insert t (fst ` set freqs)"
      unfolding keys_counter_add by auto
    finally show ?thesis .
  qed
  with Cons [of "counter_add freqs t"] show ?case by simp
qed

lemma distinct_counter_update:
  "distinct (map fst freqs) \<Longrightarrow> distinct (map fst (counter_update freqs toks))"
  unfolding counter_update_def
proof (induction toks arbitrary: freqs)
  case Nil
  then show ?case by simp
next
  case (Cons t ts)
  from Cons.prems have "distinct (map fst (counter_add freqs t))"
    by (simp add: keys_counter_add)
  from Cons.IH [OF this] show ?case by simp
qed

lemma counted_keys:
  "fst ` set (foldl (\<lambda>freqs s. counter_update freqs (tokenize s)) freqs sents)
     = fst ` set freqs \<union> (\<Union>s\<in>set sents. set (tokenize s))"
  by (induction sents arbitrary: freqs) (auto simp: keys_counter_update)

lemma counted_distinct:
  "distinct (map fst freqs) \<Longrightarrow>
   distinct (map fst (foldl (\<lambda>freqs s. counter_update freqs (tokenize s)) freqs sents))"
  by (induction sents arbitrary: freqs) (simp_all add: distinct_counter_update)

lemmas str_eval = tokenize_def py_split_def py_strip_def py_lower_def lower_char_def isspace_def
  char_of_def bit_Suc_0_iff tab_def
lemmas vocab_eval = build_def counter_update_def build_entry_def Vocabulary_init_def special_tokens_def
  numericalize_def dict_item_def

lemma lower_char_idem: "lower_char (lower_char c) = lower_char c"
proof -
  have "(of_char c :: nat) < 256" by simp
  then show ?thesis
    by (auto simp: lower_char_def Let_def)
qed

lemma build_entry_eq:
  "build_entry thr (st, it, idx) (k, f) =
     (if thr \<le> int f then (st(k \<mapsto> idx), it(idx \<mapsto> k), Suc idx) else (st, it, idx))"
  by (simp add: build_entry_def)

lemma build_fold_stoi_keep:
  "tok \<notin> fst ` set freqs \<Longrightarrow> fst (foldl (build_entry thr) (st, it, idx) freqs) tok = st tok"
proof (induction freqs arbitrary: st it idx)
  case Nil
  show ?case by simp
next
  case (Cons p rest)
  obtain k f where p: "p = (k, f)" by (cases p) auto
  from Cons.prems p have ne: "tok \<noteq> k" and r: "tok \<notin> fst ` set rest" by auto
  show ?case
    using Cons.IH [OF r] ne by (simp add: p build_entry_eq)
qed

lemma build_fold_itos_low:
  "i < idx \<Longrightarrow> fst (snd (foldl (build_entry thr) (st, it, idx) freqs)) i = it i"
proof (induction freqs arbitrary: st it idx)
  case Nil
  show ?case by simp
next
  case (Cons p rest)
  obtain k f where p: "p = (k, f)" by (cases p) auto
  from Cons.prems have "i < Suc idx" by simp
  from Cons.IH [OF this] Cons.IH [OF Cons.prems] Cons.prems show ?case
    by (simp add: p build_entry_eq)
qed

lemma build_fold_stoi_new:
  "fst (foldl (build_entry thr) (st, it, idx) freqs) tok = Some i \<Longrightarrow> st tok = Some i \<or> idx \<le> i"
proof (induction freqs arbitrary: st it idx)
  case Nil
  then show ?case by simp
next
  case (Cons p rest)
  obtain k f where p: "p = (k, f)" by (cases p) auto
  show ?case
  proof (cases "thr \<le> int f")
    case True
    with Cons.prems p
    have "fst (foldl (build_entry thr) (st(k \<mapsto> idx), it(idx \<mapsto> k), Suc idx) rest) tok = Some i"
      by (simp add: build_entry_eq)
    from Cons.IH [OF this] show ?thesis by (auto split: if_splits)
  next
    case False
    with Cons.prems p
    have "fst (foldl (build_entry thr) (st, it, idx) rest) tok = Some i"
      by (simp add: build_entry_eq)
    from Cons.IH [OF this] show ?thesis .
  qed
qed

lemma build_fold_inverse:
  assumes "distinct (map fst freqs)"
    and "\<forall>tok\<in>fst ` set freqs. st tok = None"
    and "\<forall>i tok. it i = Some tok \<longrightarrow> i < idx"
    and "\<forall>tok i. st tok = Some i \<longleftrightarrow> it i = Some tok"
  shows "\<forall>tok i. fst (foldl (build_entry thr) (st, it, idx) freqs) tok = Some i \<longleftrightarrow>
                 fst (snd (foldl (build_entry thr) (st, it, idx) freqs)) i = Some tok"
  using assms
proof (induction freqs arbitrary: st it idx)
  case Nil
  then show ?case by simp
next
  case (Cons p rest)
  obtain k f where p: "p = (k, f)" by (cases p) auto
  from Cons.prems(1) p have d: "distinct (map fst rest)" and k: "k \<notin> fst ` set rest" by auto
  show ?case
  proof (cases "thr \<le> int f")
    case False
    have "\<forall>tok\<in>fst ` set rest. st tok = None" using Cons.prems(2) by simp
    from Cons.IH [OF d this Cons.prems(3,4)] False show ?thesis
      by (simp add: p build_entry_eq)
  next
    case True
    have stk: "st k = None" using Cons.prems(2) p by simp
    have itx: "it idx = None"
    proof (cases "it idx")
      case None
      then show ?thesis .
    next
      case (Some t)
      with Cons.prems(3) have "idx < idx" by blast
      then show ?thesis by simp
    qed
    have a: "\<forall>tok\<in>fst ` set rest. (st(k \<mapsto> idx)) tok = None"
      using Cons.prems(2) k by auto
    have b: "\<forall>i tok. (it(idx \<mapsto> k)) i = Some tok \<longrightarrow> i < Suc idx"
      using Cons.prems(3) by (auto intro: less_SucI)
    have c: "\<forall>tok i. (st(k \<mapsto> idx)) tok = Some i \<longleftrightarrow> (it(idx \<mapsto> k)) i = Some tok"
    proof (intro allI)
      fix tok i
      show "(st(k \<mapsto> idx)) tok = Some i \<longleftrightarrow> (it(idx \<mapsto> k)) i = Some tok"
      proof (cases "tok = k")
        case tk: True
        show ?thesis
        proof (cases "i = idx")
          case True
          with tk show ?thesis by simp
        next
          case False
          have "it i \<noteq> Some k" using Cons.prems(4) stk by (metis option.distinct(1))
          with tk False show ?thesis by auto
        qed
      next
        case tk: False
        show ?thesis
        proof (cases "i = idx")
          case True
          have "st tok \<noteq> Some idx" using Cons.prems(4) itx by (metis option.distinct(1))
          with tk True show ?thesis by auto
        next
          case False
          with tk Cons.prems(4) show ?thesis by simp
        qed
      qed
    qed
    have step: "foldl (build_entry thr) (st, it, idx) (p # rest) =
        foldl (build_entry thr) (st(k \<mapsto> idx), it(idx \<mapsto> k), Suc idx) rest"
      using True by (simp add: p build_entry_eq)
    show ?thesis unfolding step using Cons.IH [OF d a b c] .
  qed
qed

lemma stoi_build:
  "stoi (build v sents) =
     fst (foldl (build_entry (freq_threshold v)) (stoi v, itos v, 4)
            (foldl (\<lambda>freqs s. counter_update freqs (tokenize s)) [] sents))"
  by (simp add: build_def Let_def)

lemma itos_build:
  "itos (build v sents) =
     fst (snd (foldl (build_entry (freq_threshold v)) (stoi v, itos v, 4)
                 (foldl (\<lambda>freqs s. counter_update freqs (tokenize s)) [] sents)))"
  by (simp add: build_def Let_def)

lemma stoi_build_special:
  assumes "(i, s) \<in> set special_tokens"
  shows "stoi (build v sents) s = stoi v s"
proof -
  have "s \<notin> fst ` set (foldl (\<lambda>freqs s. counter_update freqs (tokenize s)) [] sents)"
    unfolding counted_keys using tokenize_not_special assms by auto
  then show ?thesis unfolding stoi_build by (rule build_fold_stoi_keep)
qed

lemma itos_build_low: "i < 4 \<Longrightarrow> itos (build v sents) i = itos v i"
  unfolding itos_build by (rule build_fold_itos_low)

lemma stoi_build_new: "stoi (build v sents) tok = Some i \<Longrightarrow> stoi v tok = Some i \<or> 4 \<le> i"
  unfolding stoi_build by (rule build_fold_stoi_new)

lemma itos_build_new: "itos (build v sents) i = Some tok \<Longrightarrow> itos v i = Some tok \<or> 4 \<le> i"
  using itos_build_low [of i v sents] by (cases "i < 4") auto

lemma specials_fixed_init: "specials_fixed (Vocabulary_init thr)"
  by (simp add: specials_fixed_def Vocabulary_init_def special_tokens_def)

lemma specials_fixed_build:
  assumes "specials_fixed v"
  shows "specials_fixed (build v sents)"
proof -
  have "stoi (build v sents) ''<PAD>'' = stoi v ''<PAD>''"
    and "stoi (build v sents) ''<SOS>'' = stoi v ''<SOS>''"
    and "stoi (build v sents) ''<EOS>'' = stoi v ''<EOS>''"
    and "stoi (build v sents) ''<UNK>'' = stoi v ''<UNK>''"
    by (rule stoi_build_special [of _ _ v sents], simp add: special_tokens_def)+
  with assms show ?thesis
    by (simp add: specials_fixed_def itos_build_low)
qed

lemma reachable_specials: "reachable v \<Longrightarrow> specials_fixed v"
  by (induction rule: reachable.induct) (simp_all add: specials_fixed_init specials_fixed_build)

lemma mutually_inverse_init: "mutually_inverse (Vocabulary_init thr)"
  unfolding mutually_inverse_def Vocabulary_init_def special_tokens_def
  by (auto split: if_splits)

lemma mutually_inverse_first_build: "mutually_inverse (build (Vocabulary_init thr) sents)"
proof -
  let ?v = "Vocabulary_init thr"
  let ?freqs = "foldl (\<lambda>freqs s. counter_update freqs (tokenize s)) [] sents"
  have d: "distinct (map fst ?freqs)" by (rule counted_distinct) simp
  have fresh: "\<forall>tok\<in>fst ` set ?freqs. stoi ?v tok = None"
  proof
    fix tok assume "tok \<in> fst ` set ?freqs"
    then obtain s where "tok \<in> set (tokenize s)" unfolding counted_keys by auto
    then have "\<forall>i. (i, tok) \<notin> set special_tokens" by (simp add: tokenize_not_special)
    then show "stoi ?v tok = None"
      by (auto simp: Vocabulary_init_def special_tokens_def)
  qed
  have low: "\<forall>i tok. itos ?v i = Some tok \<longrightarrow> i < 4"
    by (auto simp: Vocabulary_init_def special_tokens_def split: if_splits)
  have inv: "\<forall>tok i. stoi ?v tok = Some i \<longleftrightarrow> itos ?v i = Some tok"
    using mutually_inverse_init [of thr] by (simp add: mutually_inverse_def)
  from build_fold_inverse [OF d fresh low inv, of "freq_threshold ?v"]
  show ?thesis
    unfolding mutually_inverse_def stoi_build itos_build .
qed

lemma numericalize_tokens_eq:
  "stoi v ''<UNK>'' = Some unk \<Longrightarrow>
   numericalize_tokens v toks = Inr (map (\<lambda>tok. case stoi v tok of None \<Rightarrow> unk | Some i \<Rightarrow> i) toks)"
  by (induction toks) (simp_all add: dict_item_def)

lemmas ds_eval = FlickrDataset_init_def isfile_def read_data_def

lemma captions_of_Inr:
  "(\<exists>cs. captions_of entries = Inr cs) \<longleftrightarrow> (\<forall>entry\<in>set entries. length entry = 2)"
proof (induction entries)
  case Nil
  show ?case by simp
next
  case (Cons entry rest)
  show ?case
  proof (cases "length entry = 2")
    case True
    then obtain a b where "entry = [a, b]"
      by (cases entry; cases "tl entry"; cases "tl (tl entry)") auto
    with Cons show ?thesis by (auto split: sum.splits)
  next
    case False
    then have "captions_of (entry # rest) = Inl ValueError"
      by (cases entry; cases "tl entry"; cases "tl (tl entry)") auto
    with False show ?thesis by simp
  qed
qed

lemma captions_of_Inl: "captions_of entries = Inl e \<Longrightarrow> e = ValueError"
  by (induction entries arbitrary: e) (auto split: list.splits sum.splits)

lemma foldl_collect:
  "foldl (\<lambda>acc x. if P x then acc @ [g x] else acc) acc xs = acc @ map g (filter P xs)"
  by (induction xs arbitrary: acc) simp_all

lemma read_data_eq:
  "read_data lines = map (\<lambda>ln. split_on tab (py_strip ln)) (filter (\<lambda>ln. tab \<in> set ln) lines)"
  unfolding read_data_def by (simp add: foldl_collect)

lemma split_on_nonempty: "split_on sep s \<noteq> []"
  by (induction s) (auto split: list.splits)

lemma py_join_Cons: "py_join sep ((x # w) # ws) = x # py_join sep (w # ws)"
  by (cases ws) simp_all

lemma py_join_split_on: "py_join [sep] (split_on sep s) = s"
proof (induction s)
  case Nil
  show ?case by simp
next
  case (Cons c cs)
  obtain w ws where sp: "split_on sep cs = w # ws"
    using split_on_nonempty [of sep cs] by (cases "split_on sep cs") auto
  with Cons show ?case by (simp add: py_join_Cons)
qed

lemma split_on_no_sep: "field \<in> set (split_on sep s) \<Longrightarrow> sep \<notin> set field"
proof (induction s arbitrary: field)
  case Nil
  then show ?case by simp
next
  case (Cons c cs)
  obtain w ws where sp: "split_on sep cs = w # ws"
    using split_on_nonempty [of sep cs] by (cases "split_on sep cs") auto
  have w: "sep \<notin> set w" and ws: "\<forall>f\<in>set ws. sep \<notin> set f"
    using Cons.IH sp by auto
  from Cons.prems sp w ws show ?case by (auto split: if_splits)
qed

lemma length_split_on: "length (split_on sep s) = Suc (count_list s sep)"
proof (induction s)
  case Nil
  show ?case by simp
next
  case (Cons c cs)
  obtain w ws where sp: "split_on sep cs = w # ws"
    using split_on_nonempty [of sep cs] by (cases "split_on sep cs") auto
  with Cons show ?case by auto
qed

section \<open>Claims about the vocabulary and the dataset\<close>

text \<open>
  C6. For a vocabulary made by the constructor and calls of \<open>build\<close>, and every text,
  \<open>numericalize\<close> returns, for the tokens of the text in order, the stored index of a token
  that is in \<open>stoi\<close> and the index of \<open><UNK>\<close>, which is 3, for a token that is not.
  The tokens are the non-empty, whitespace-free words of the lowercased text.
\<close>

theorem numericalize_unknown:
  assumes "reachable v"
  shows "stoi v ''<UNK>'' = Some 3 \<and>
         numericalize v text =
           Inr (map (\<lambda>tok. case stoi v tok of None \<Rightarrow> 3 | Some i \<Rightarrow> i) (tokenize text)) \<and>
         (\<forall>tok\<in>set (tokenize text). tok \<noteq> [] \<and> (\<forall>c\<in>set tok. \<not> isspace c \<and> lower_char c = c))"
proof -
  from reachable_specials [OF assms] have unk: "stoi v ''<UNK>'' = Some 3"
    by (simp add: specials_fixed_def)
  have "\<forall>tok\<in>set (tokenize text). tok \<noteq> [] \<and> (\<forall>c\<in>set tok. \<not> isspace c \<and> lower_char c = c)"
  proof (intro ballI conjI)
    fix tok assume t: "tok \<in> set (tokenize text)"
    then show "tok \<noteq> []" by (rule tokenize_nonempty)
    fix c assume c: "c \<in> set tok"
    from tokenize_chars [OF t c] show "\<not> isspace c" by simp
    from t have "tok \<in> set (split_words [] (py_strip (py_lower text)))"
      by (simp add: tokenize_def py_split_def)
    from split_words_chars [OF this] c py_strip_chars [of "py_lower text"]
    have "c \<in> set (py_lower text)" by auto
    then show "lower_char c = c" by (auto simp: py_lower_def lower_char_idem)
  qed
  with unk numericalize_tokens_eq [OF unk] show ?thesis by (simp add: numericalize_def)
qed

text \<open>
  A vocabulary built with threshold 2 from two captions: \<open>a\<close> and \<open>runs\<close> are kept,
  \<open>dog\<close> and \<open>fast\<close> are unknown.
\<close>

theorem numericalize_unknown_witness:
  "reachable (build (Vocabulary_init 2) [''A dog runs'', ''a cat runs'']) \<and>
   tokenize ''A dog RUNS fast'' = [''a'', ''dog'', ''runs'', ''fast''] \<and>
   stoi (build (Vocabulary_init 2) [''A dog runs'', ''a cat runs'']) ''dog'' = None \<and>
   stoi (build (Vocabulary_init 2) [''A dog runs'', ''a cat runs'']) ''runs'' = Some 5 \<and>
   numericalize (build (Vocabulary_init 2) [''A dog runs'', ''a cat runs'']) ''A dog RUNS fast''
     = Inr [4, 3, 5, 3]"
proof -
  have r: "reachable (build (Vocabulary_init 2) [''A dog runs'', ''a cat runs''])"
    by (intro reachable.intros)
  have t: "tokenize ''A dog RUNS fast'' = [''a'', ''dog'', ''runs'', ''fast'']"
    by (simp add: str_eval)
  have s: "stoi (build (Vocabulary_init 2) [''A dog runs'', ''a cat runs'']) ''a'' = Some 4 \<and>
     stoi (build (Vocabulary_init 2) [''A dog runs'', ''a cat runs'']) ''dog'' = None \<and>
     stoi (build (Vocabulary_init 2) [''A dog runs'', ''a cat runs'']) ''runs'' = Some 5 \<and>
     stoi (build (Vocabulary_init 2) [''A dog runs'', ''a cat runs'']) ''fast'' = None"
    by (simp add: str_eval vocab_eval)
  from numericalize_unknown [OF r, of "''A dog RUNS fast''"] r t s show ?thesis by simp
qed

text \<open>
  C10, amended. After the constructor and any calls of \<open>build\<close>, the indices 0 to 3
  hold the four special tokens in both maps; \<open>build\<close> leaves the entries of \<open>itos\<close>
  below 4 as they are and gives every entry it adds or changes an index of at least 4;
  and \<open>stoi\<close> and \<open>itos\<close> are inverse to each other after the constructor and after
  the first call of \<open>build\<close>.
\<close>

theorem vocabulary_invariant:
  assumes "reachable v"
  shows "specials_fixed v \<and>
         (\<forall>i<4. itos (build v sents) i = itos v i) \<and>
         (\<forall>tok i. stoi (build v sents) tok = Some i \<longrightarrow> stoi v tok = Some i \<or> 4 \<le> i) \<and>
         (\<forall>i tok. itos (build v sents) i = Some tok \<longrightarrow> itos v i = Some tok \<or> 4 \<le> i) \<and>
         mutually_inverse (Vocabulary_init thr) \<and>
         mutually_inverse (build (Vocabulary_init thr) first)"
  using reachable_specials [OF assms] itos_build_low stoi_build_new itos_build_new
    mutually_inverse_init mutually_inverse_first_build
  by blast

text \<open>
  One call of \<open>build\<close> with threshold 1 on one caption.
\<close>

theorem vocabulary_invariant_witness:
  "reachable (build (Vocabulary_init 1) [''A dog'']) \<and>
   specials_fixed (build (Vocabulary_init 1) [''A dog'']) \<and>
   mutually_inverse (build (Vocabulary_init 1) [''A dog'']) \<and>
   stoi (build (Vocabulary_init 1) [''A dog'']) ''dog'' = Some 5 \<and>
   itos (build (Vocabulary_init 1) [''A dog'']) 5 = Some ''dog''"
proof -
  have r: "reachable (build (Vocabulary_init 1) [''A dog''])"
    by (intro reachable.intros)
  have s: "stoi (build (Vocabulary_init 1) [''A dog'']) ''dog'' = Some 5 \<and>
     itos (build (Vocabulary_init 1) [''A dog'']) 5 = Some ''dog''"
    by (simp add: str_eval vocab_eval)
  from vocabulary_invariant [OF r, of _ 1 "[''A dog'']"] r s show ?thesis by simp
qed

text \<open>
  C10 as stated fails: \<open>build\<close> starts its numbering at 4 in every call, so a second
  call gives index 4 to \<open>b\<close> while \<open>stoi\<close> still maps \<open>a\<close> to 4, and \<open>itos\<close> maps 4
  to \<open>b\<close> only.
\<close>

theorem second_build_counterexample:
  "reachable (build (build (Vocabulary_init 1) [''a'']) [''b'']) \<and>
   stoi (build (build (Vocabulary_init 1) [''a'']) [''b'']) ''a'' = Some 4 \<and>
   stoi (build (build (Vocabulary_init 1) [''a'']) [''b'']) ''b'' = Some 4 \<and>
   itos (build (build (Vocabulary_init 1) [''a'']) [''b'']) 4 = Some ''b'' \<and>
   \<not> mutually_inverse (build (build (Vocabulary_init 1) [''a'']) [''b''])"
proof -
  have r: "reachable (build (build (Vocabulary_init 1) [''a'']) [''b''])"
    by (intro reachable.intros)
  have s: "stoi (build (build (Vocabulary_init 1) [''a'']) [''b'']) ''a'' = Some 4 \<and>
     stoi (build (build (Vocabulary_init 1) [''a'']) [''b'']) ''b'' = Some 4 \<and>
     itos (build (build (Vocabulary_init 1) [''a'']) [''b'']) 4 = Some ''b''"
    by (simp add: str_eval vocab_eval)
  have "\<not> mutually_inverse (build (build (Vocabulary_init 1) [''a'']) [''b''])"
  proof
    assume "mutually_inverse (build (build (Vocabulary_init 1) [''a'']) [''b''])"
    then have "stoi (build (build (Vocabulary_init 1) [''a'']) [''b'']) ''a'' = Some 4 \<longrightarrow>
        itos (build (build (Vocabulary_init 1) [''a'']) [''b'']) 4 = Some ''a''"
      unfolding mutually_inverse_def by blast
    with s show False by simp
  qed
  with r s show ?thesis by simp
qed

text \<open>
  C5. The constructor raises at its two existence checks, with AssertionError, if and only
  if the image directory is not an existing directory or the captions file is not an
  existing file; when both exist, it does not raise on those checks.
\<close>

theorem dataset_init_checks:
  "(FlickrDataset_init fs img_dir captions_file thr = Inl AssertionError \<longleftrightarrow>
      \<not> isdir fs img_dir \<or> \<not> isfile fs captions_file) \<and>
   (isdir fs img_dir \<and> isfile fs captions_file \<longrightarrow>
      FlickrDataset_init fs img_dir captions_file thr \<noteq> Inl AssertionError)"
proof (cases "isdir fs img_dir \<and> isfile fs captions_file")
  case False
  then show ?thesis by (auto simp: FlickrDataset_init_def)
next
  case True
  then obtain lines where lines: "file_lines fs captions_file = Some lines"
    by (auto simp: isfile_def)
  have "FlickrDataset_init fs img_dir captions_file thr \<noteq> Inl AssertionError"
  proof (cases "captions_of (read_data lines)")
    case (Inl e)
    then have "e = ValueError" by (rule captions_of_Inl)
    with Inl True lines show ?thesis by (simp add: FlickrDataset_init_def Let_def)
  next
    case (Inr cs)
    with True lines show ?thesis by (simp add: FlickrDataset_init_def Let_def)
  qed
  with True show ?thesis by simp
qed

text \<open>
  A file system with both paths: the constructor raises AssertionError for a wrong
  directory and for a wrong file, and not for the right paths.
\<close>

theorem dataset_init_checks_witness:
  "isdir fs_ok ''images'' \<and> isfile fs_ok ''captions.txt'' \<and>
   FlickrDataset_init fs_ok ''images'' ''captions.txt'' 5 \<noteq> Inl AssertionError \<and>
   FlickrDataset_init fs_ok ''imagesx'' ''captions.txt'' 5 = Inl AssertionError \<and>
   FlickrDataset_init fs_ok ''images'' ''captions.tsv'' 5 = Inl AssertionError"
  using dataset_init_checks [of fs_ok "''images''" "''captions.txt''" 5]
    dataset_init_checks [of fs_ok "''imagesx''" "''captions.txt''" 5]
    dataset_init_checks [of fs_ok "''images''" "''captions.tsv''" 5]
  by (simp add: fs_ok_def isfile_def)

text \<open>
  C8. The entries read from the captions file are, in order, the lines that contain a
  tab, each stripped and split at its tabs: a line without a tab adds nothing, a line
  with a tab adds exactly one entry, and no line raises. The fields of an entry hold no
  tab, joined by tabs they give back the stripped line, and there is one more of them
  than the stripped line has tabs.
\<close>

theorem read_data_lines:
  "read_data lines =
     map (\<lambda>ln. split_on tab (py_strip ln)) (filter (\<lambda>ln. tab \<in> set ln) lines) \<and>
   (tab \<notin> set ln \<longrightarrow> read_data (before @ ln # after) = read_data before @ read_data after) \<and>
   (tab \<in> set ln \<longrightarrow>
      read_data (before @ ln # after) =
        read_data before @ split_on tab (py_strip ln) # read_data after) \<and>
   py_join [tab] (split_on tab (py_strip ln)) = py_strip ln \<and>
   (\<forall>field\<in>set (split_on tab (py_strip ln)). tab \<notin> set field) \<and>
   length (split_on tab (py_strip ln)) = Suc (count_list (py_strip ln) tab)"
  by (simp add: read_data_eq py_join_split_on split_on_no_sep length_split_on)

text \<open>
  Three lines, the second without a tab.
\<close>

theorem read_data_lines_witness:
  "tab \<in> set (''1.jpg'' @ [tab] @ ''A dog runs'' @ [CHR 0x0A]) \<and>
   tab \<notin> set (''no tab here'' @ [CHR 0x0A]) \<and>
   read_data [''image'' @ [tab] @ ''caption'' @ [CHR 0x0A],
              ''no tab here'' @ [CHR 0x0A],
              ''1.jpg'' @ [tab] @ ''A dog runs'' @ [CHR 0x0A]]
     = [[''image'', ''caption''], [''1.jpg'', ''A dog runs'']]"
  using read_data_lines [of "[''image'' @ [tab] @ ''caption'' @ [CHR 0x0A],
              ''no tab here'' @ [CHR 0x0A],
              ''1.jpg'' @ [tab] @ ''A dog runs'' @ [CHR 0x0A]]"]
  by (simp add: str_eval)

section \<open>The training loop\<close>

lemma upt_EPOCHS: "[0..<EPOCHS] = 0 # [1..<EPOCHS]"
  by (simp add: EPOCHS_def upt_conv_Cons)

lemma train_Inr:
  assumes "train tr fs saved output_path = Inr saved'"
  obtains ds pad_idx enc dec where
    "FlickrDataset_init fs IMG_DIR CAPT_FILE 5 = Inr ds"
    "dict_item (stoi (ds_vocab ds)) ''<PAD>'' = Inr pad_idx"
    "fit_epochs tr ds pad_idx ((length (ds_data ds) + BATCH_SIZE - 1) div BATCH_SIZE) [0..<EPOCHS]
       (new_encoder tr, new_decoder tr (card (dom (stoi (ds_vocab ds))))) = Inr (enc, dec)"
    "saved' = saved @ [(output_path,
        [(''encoder'', Weights enc), (''decoder'', Weights dec),
         (''vocab'', Vocab (stoi (ds_vocab ds)))])]"
proof (cases "FlickrDataset_init fs IMG_DIR CAPT_FILE 5")
  case (Inl e)
  with assms show ?thesis by (simp add: train_def)
next
  case ds: (Inr ds)
  show ?thesis
  proof (cases "dict_item (stoi (ds_vocab ds)) ''<PAD>''")
    case (Inl e)
    with assms ds show ?thesis by (simp add: train_def)
  next
    case pad: (Inr pad_idx)
    show ?thesis
    proof (cases "fit_epochs tr ds pad_idx
        ((length (ds_data ds) + BATCH_SIZE - 1) div BATCH_SIZE) [0..<EPOCHS]
        (new_encoder tr, new_decoder tr (card (dom (stoi (ds_vocab ds)))))")
      case (Inl e)
      with assms ds pad show ?thesis by (simp add: train_def Let_def)
    next
      case (Inr w)
      obtain enc dec where w: "w = (enc, dec)" by (cases w) auto
      from assms ds pad Inr w have "saved' = saved @ [(output_path,
        [(''encoder'', Weights enc), (''decoder'', Weights dec),
         (''vocab'', Vocab (stoi (ds_vocab ds)))])]"
        by (simp add: train_def Let_def)
      with ds pad Inr w that show ?thesis by simp
    qed
  qed
qed

lemma toy_fit_epochs:
  "fit_epochs toy_torch ds pad_idx (Suc 0) es (a, b) = Inr (a + length es, b + length es)"
  by (induction es arbitrary: a b) (simp_all add: toy_torch_def)

section \<open>Claim about training\<close>

text \<open>
  C7. A run of \<open>train\<close> that returns has written exactly one file, at the output
  path, after what was written before; its contents are the dictionary of the three keys
  \<open>encoder\<close>, \<open>decoder\<close> and \<open>vocab\<close>, which hold the weights of the encoder and of
  the decoder that the epochs of training give, and the \<open>stoi\<close> map of the vocabulary of
  the dataset read from the captions file. Such a run has read at least one caption.
\<close>

theorem train_saves_checkpoint:
  assumes "train tr fs saved output_path = Inr saved'"
  shows "\<exists>ds enc dec ckpt.
           FlickrDataset_init fs IMG_DIR CAPT_FILE 5 = Inr ds \<and> ds_data ds \<noteq> [] \<and>
           saved' = saved @ [(output_path, ckpt)] \<and>
           map fst ckpt = [''encoder'', ''decoder'', ''vocab''] \<and>
           map_of ckpt ''encoder'' = Some (Weights enc) \<and>
           map_of ckpt ''decoder'' = Some (Weights dec) \<and>
           map_of ckpt ''vocab'' = Some (Vocab (stoi (ds_vocab ds))) \<and>
           (\<exists>pad_idx. fit_epochs tr ds pad_idx
              ((length (ds_data ds) + BATCH_SIZE - 1) div BATCH_SIZE) [0..<EPOCHS]
              (new_encoder tr, new_decoder tr (card (dom (stoi (ds_vocab ds))))) = Inr (enc, dec))"
proof -
  from assms obtain ds pad_idx enc dec where
    ds: "FlickrDataset_init fs IMG_DIR CAPT_FILE 5 = Inr ds"
    and fit: "fit_epochs tr ds pad_idx ((length (ds_data ds) + BATCH_SIZE - 1) div BATCH_SIZE)
       [0..<EPOCHS] (new_encoder tr, new_decoder tr (card (dom (stoi (ds_vocab ds)))))
       = Inr (enc, dec)"
    and saved': "saved' = saved @ [(output_path,
        [(''encoder'', Weights enc), (''decoder'', Weights dec),
         (''vocab'', Vocab (stoi (ds_vocab ds)))])]"
    by (rule train_Inr)
  have ne: "ds_data ds \<noteq> []"
  proof
    assume "ds_data ds = []"
    then have "(length (ds_data ds) + BATCH_SIZE - 1) div BATCH_SIZE = 0"
      by (simp add: BATCH_SIZE_def)
    with fit show False by (simp add: upt_EPOCHS)
  qed
  let ?ckpt = "[(''encoder'', Weights enc), (''decoder'', Weights dec),
         (''vocab'', Vocab (stoi (ds_vocab ds)))]"
  have "map fst ?ckpt = [''encoder'', ''decoder'', ''vocab'']"
    and "map_of ?ckpt ''encoder'' = Some (Weights enc)"
    and "map_of ?ckpt ''decoder'' = Some (Weights dec)"
    and "map_of ?ckpt ''vocab'' = Some (Vocab (stoi (ds_vocab ds)))"
    by simp_all
  with ds ne saved' fit show ?thesis
    by (intro exI conjI) (assumption | rule refl)+
qed

text \<open>
  The toy library on the second file system: ten epochs of one batch each, and one
  checkpoint.
\<close>

theorem train_saves_checkpoint_witness:
  "train toy_torch fs_ok [] ''model.pth''
     = Inr [(''model.pth'',
             [(''encoder'', Weights 10), (''decoder'', Weights 10),
              (''vocab'', Vocab (stoi (build (Vocabulary_init 5) [''caption'', ''A dog runs''])))])]"
proof -
  let ?v = "build (Vocabulary_init 5) [''caption'', ''A dog runs'']"
  let ?ds = "\<lparr>ds_data = [[''image'', ''caption''], [''1.jpg'', ''A dog runs'']],
             ds_img_dir = ''images'', ds_vocab = ?v\<rparr>"
  have ds: "FlickrDataset_init fs_ok IMG_DIR CAPT_FILE 5 = Inr ?ds"
    by (simp add: fs_ok_def IMG_DIR_def CAPT_FILE_def ds_eval str_eval)
  have "reachable ?v" by (intro reachable.intros)
  then have "specials_fixed ?v" by (rule reachable_specials)
  then have pad: "dict_item (stoi (ds_vocab ?ds)) ''<PAD>'' = Inr 0"
    by (simp add: specials_fixed_def dict_item_def)
  have n: "(length (ds_data ?ds) + BATCH_SIZE - 1) div BATCH_SIZE = Suc 0"
    by (simp add: BATCH_SIZE_def)
  have e: "length [0..<EPOCHS] = 10" by (simp add: EPOCHS_def)
  have f: "fit_epochs toy_torch ?ds 0 (Suc 0) [0..<EPOCHS]
             (new_encoder toy_torch, new_decoder toy_torch (card (dom (stoi (ds_vocab ?ds)))))
           = Inr (10, 10)"
    using toy_fit_epochs [of ?ds 0 "[0..<EPOCHS]" 0 0] e by (simp add: toy_torch_def)
  have t: "train toy_torch fs_ok [] ''model.pth''
     = Inr [(''model.pth'',
             [(''encoder'', Weights 10), (''decoder'', Weights 10),
              (''vocab'', Vocab (stoi ?v))])]"
    unfolding train_def ds sum.case pad Let_def n f by simp
  from train_saves_checkpoint [OF t] t show ?thesis
    by (elim exE conjE)
qed

end

